theory Spec2Isabelle
  imports Main "HOL-Library.Word" "HOL-Library.List_Lexorder" "HOL-Library.Multiset"
begin

section \<open>The group chat form of qTox: name list and audio timers\<close>

text \<open>
  The development embeds the logic of \<^verbatim>\<open>src/widget/form/groupchatform.cpp\<close>:
  \<^verbatim>\<open>editName\<close>, \<^verbatim>\<open>GroupChatForm::updateUserNames\<close> and
  \<^verbatim>\<open>GroupChatForm::peerAudioPlaying\<close> with the timeout callback it connects.
\<close>

subsection \<open>QString\<close>

text \<open>
  A \<^verbatim>\<open>QString\<close> is a sequence of UTF-16 code units. Its \<^verbatim>\<open>operator<\<close> compares
  the numeric values of the code units lexicographically, which is the order of lists of
  words.
\<close>

type_synonym QChar = "16 word"
type_synonym QString = "QChar list"

definition QStringLiteral :: "string \<Rightarrow> QString" where
  "QStringLiteral s = map of_char s"

definition ellipsis :: QChar where
  \<comment> \<open>U+2026, one code unit\<close>
  "ellipsis = 0x2026"

definition isNewline :: "QChar \<Rightarrow> bool" where
  \<comment> \<open>the character class of the regular expression \<^verbatim>\<open>[\n\r]\<close>\<close>
  "isNewline c = (c = 0x0A \<or> c = 0x0D)"

fun indexOf :: "(QChar \<Rightarrow> bool) \<Rightarrow> QString \<Rightarrow> int" where
  \<comment> \<open>\<^verbatim>\<open>QString::indexOf\<close> for a one-character class: the first matching position, or -1\<close>
  "indexOf P [] = - 1"
| "indexOf P (c # cs) =
     (if P c then 0 else (let i = indexOf P cs in if i = - 1 then - 1 else i + 1))"

definition chop :: "int \<Rightarrow> QString \<Rightarrow> QString" where
  \<comment> \<open>\<^verbatim>\<open>QString::chop(n)\<close> removes n units from the end; everything when n is at least
      the size, nothing when n is not positive\<close>
  "chop n s = (if int (length s) \<le> n then [] else take (length s - nat n) s)"

definition editName :: "QString \<Rightarrow> QString" where
  "editName name =
     (let pos = indexOf isNewline name in
      if pos = - 1 then name
      else (let result = name;
                len = int (length result)
            in chop (len - pos) result @ [ellipsis]))"

subsection \<open>QMap\<close>

text \<open>
  The header of the class is not among the sources. The containers are taken to be
  \<^verbatim>\<open>QMap\<close>s keyed by \<^verbatim>\<open>ToxPk\<close>, as the documentation comment of the fields
  (lines 67 to 73) and the calls \<^verbatim>\<open>insert\<close>, \<^verbatim>\<open>values\<close>, \<^verbatim>\<open>keys\<close> and
  \<^verbatim>\<open>operator[]\<close> indicate. A \<^verbatim>\<open>QMap\<close> keeps its entries in ascending key order,
  one entry per key; it is the list of its entries in that order. The key type is any
  linear order.
\<close>

type_synonym ('k, 'v) QMap = "('k \<times> 'v) list"

definition qmap_inv :: "('k::linorder, 'v) QMap \<Rightarrow> bool" where
  "qmap_inv m = sorted_wrt (<) (map fst m)"

fun qmap_insert :: "'k::linorder \<Rightarrow> 'v \<Rightarrow> ('k, 'v) QMap \<Rightarrow> ('k, 'v) QMap" where
  \<comment> \<open>\<^verbatim>\<open>QMap::insert\<close>: replaces the value of a key that is present\<close>
  "qmap_insert k v [] = [(k, v)]"
| "qmap_insert k v ((k', v') # m) =
     (if k = k' then (k, v) # m
      else if k < k' then (k, v) # (k', v') # m
      else (k', v') # qmap_insert k v m)"

definition qmap_keys :: "('k, 'v) QMap \<Rightarrow> 'k list" where
  "qmap_keys m = map fst m"

definition qmap_value :: "('k, 'v) QMap \<Rightarrow> 'k \<Rightarrow> 'v \<Rightarrow> 'v" where
  \<comment> \<open>\<^verbatim>\<open>QMap::value\<close>: the default-constructed value for a missing key\<close>
  "qmap_value m k dflt = (case map_of m k of Some v \<Rightarrow> v | None \<Rightarrow> dflt)"

definition qmap_subscript :: "'k::linorder \<Rightarrow> 'v \<Rightarrow> ('k, 'v) QMap \<Rightarrow> 'v \<times> ('k, 'v) QMap" where
  \<comment> \<open>\<^verbatim>\<open>QMap::operator[]\<close>: a missing key is inserted with the default-constructed value\<close>
  "qmap_subscript k dflt m =
     (case map_of m k of Some v \<Rightarrow> (v, m) | None \<Rightarrow> (dflt, qmap_insert k dflt m))"

subsection \<open>qSort\<close>

text \<open>
  \<^verbatim>\<open>qSort\<close> belongs to Qt, not to the repository. The general results below take the
  sort as a parameter that meets the documented contract of \<^verbatim>\<open>qSort\<close>: for a comparison
  that is a strict weak order, the result is a rearrangement of the input in which no
  element is less than an element before it. Which of two equivalent elements comes first
  is left open by that contract.
\<close>

definition strict_weak_order :: "('a \<Rightarrow> 'a \<Rightarrow> bool) \<Rightarrow> bool" where
  "strict_weak_order lt =
     ((\<forall>a. \<not> lt a a) \<and>
      (\<forall>a b c. lt a b \<and> lt b c \<longrightarrow> lt a c) \<and>
      (\<forall>a b c. \<not> lt a b \<and> \<not> lt b c \<longrightarrow> \<not> lt a c))"

definition qSort_contract :: "(('a \<Rightarrow> 'a \<Rightarrow> bool) \<Rightarrow> 'a list \<Rightarrow> 'a list) \<Rightarrow> bool" where
  "qSort_contract srt =
     (\<forall>lt xs. strict_weak_order lt \<longrightarrow>
        mset (srt lt xs) = mset xs \<and>
        sorted_wrt (\<lambda>a b. \<not> lt b a) (srt lt xs))"

text \<open>
  The concrete instance follows \<^verbatim>\<open>qSortHelper\<close> of Qt 5 (\<^verbatim>\<open>qalgorithms.h\<close>): a quicksort
  in place, on the range from \<^verbatim>\<open>start\<close> to \<^verbatim>\<open>end\<close> (here \<open>fin\<close>) of an array,
  with the middle element as pivot after ordering the first, middle and last elements. It
  is shown below to meet the contract.
\<close>

definition qSwap :: "nat \<Rightarrow> nat \<Rightarrow> 'a list \<Rightarrow> 'a list" where
  "qSwap i j xs = xs[i := xs ! j, j := xs ! i]"

function scanLow :: "('a \<Rightarrow> 'a \<Rightarrow> bool) \<Rightarrow> 'a list \<Rightarrow> nat \<Rightarrow> nat \<Rightarrow> nat \<Rightarrow> nat" where
  \<comment> \<open>\<^verbatim>\<open>while (low < high && lessThan(*low, *end)) ++low;\<close>\<close>
  "scanLow lt xs e low high =
     (if low < high \<and> lt (xs ! low) (xs ! e)
      then scanLow lt xs e (low + 1) high else low)"
  by pat_completeness auto
termination
  by (relation "measure (\<lambda>(lt, xs, e, low, high). high - low)") auto

declare scanLow.simps [simp del]

function scanHigh :: "('a \<Rightarrow> 'a \<Rightarrow> bool) \<Rightarrow> 'a list \<Rightarrow> nat \<Rightarrow> nat \<Rightarrow> nat \<Rightarrow> nat" where
  \<comment> \<open>\<^verbatim>\<open>while (high > low && lessThan(*end, *high)) --high;\<close>\<close>
  "scanHigh lt xs e low high =
     (if high > low \<and> lt (xs ! e) (xs ! high)
      then scanHigh lt xs e low (high - 1) else high)"
  by pat_completeness auto
termination
  by (relation "measure (\<lambda>(lt, xs, e, low, high). high)") auto

declare scanHigh.simps [simp del]

lemma scanLow_bounds:
  "low \<le> scanLow lt xs e low high \<and> scanLow lt xs e low high \<le> max low high"
proof (induction lt xs e low high rule: scanLow.induct)
  case (1 lt xs e low high)
  show ?case
  proof (cases "low < high \<and> lt (xs ! low) (xs ! e)")
    case True
    with "1.IH" show ?thesis
      by (subst (1 2) scanLow.simps) auto
  next
    case False
    then show ?thesis
      by (subst (1 2) scanLow.simps) auto
  qed
qed

lemma scanHigh_bounds:
  "scanHigh lt xs e low high \<le> high \<and> min low high \<le> scanHigh lt xs e low high"
proof (induction lt xs e low high rule: scanHigh.induct)
  case (1 lt xs e low high)
  show ?case
  proof (cases "high > low \<and> lt (xs ! e) (xs ! high)")
    case True
    with "1.IH" show ?thesis
      by (subst (1 2) scanHigh.simps) auto
  next
    case False
    then show ?thesis
      by (subst (1 2) scanHigh.simps) auto
  qed
qed

function partitionLoop ::
  "('a \<Rightarrow> 'a \<Rightarrow> bool) \<Rightarrow> nat \<Rightarrow> 'a list \<times> nat \<times> nat \<Rightarrow> 'a list \<times> nat \<times> nat" where
  \<comment> \<open>the loop \<^verbatim>\<open>while (low < high)\<close> of \<^verbatim>\<open>qSortHelper\<close>, on the array and both cursors\<close>
  "partitionLoop lt e (xs, low, high) =
     (if low < high then
        (let low' = scanLow lt xs e low high;
             high' = scanHigh lt xs e low' high
         in if low' < high'
            then partitionLoop lt e (qSwap low' high' xs, low' + 1, high' - 1)
            else (xs, low', high'))
      else (xs, low, high))"
  by pat_completeness auto
termination
proof (relation "measure (\<lambda>(lt, e, xs, low, high). high - low)", goal_cases)
  case 1
  show ?case by simp
next
  case (2 lt e xs low high low' high')
  have "low \<le> low'"
    using scanLow_bounds [of low lt xs e high] 2 by simp
  moreover have "high' \<le> high"
    using scanHigh_bounds [of lt xs e low' high] 2 by simp
  ultimately show ?case
    using 2 by simp
qed

declare partitionLoop.simps [simp del]

lemma partitionLoop_bounds:
  "low \<le> fst (snd (partitionLoop lt e (xs, low, high))) \<and>
   fst (snd (partitionLoop lt e (xs, low, high))) \<le> max low high \<and>
   length (fst (partitionLoop lt e (xs, low, high))) = length xs"
proof (induction lt e "(xs, low, high)" arbitrary: xs low high rule: partitionLoop.induct)
  case (1 lt e xs low high)
  let ?l = "scanLow lt xs e low high"
  let ?h = "scanHigh lt xs e ?l high"
  have l: "low \<le> ?l" "?l \<le> max low high"
    using scanLow_bounds [of low lt xs e high] by simp_all
  have h: "?h \<le> high" "min ?l high \<le> ?h"
    using scanHigh_bounds [of lt xs e ?l high] by simp_all
  show ?case
  proof (cases "low < high \<and> ?l < ?h")
    case True
    with "1.hyps" [of ?l ?h] l h show ?thesis
      by (subst (1 2 3) partitionLoop.simps) (auto simp: Let_def qSwap_def)
  next
    case False
    with l h show ?thesis
      by (subst (1 2 3) partitionLoop.simps) (auto simp: Let_def)
  qed
qed

lemma cut_bounds:
  assumes "x = fin - start" "\<not> x < 2" "xa = fin - 1" "xb = start" "xc = xa - 1"
    "x \<noteq> 2" "x \<noteq> 3" "xh = partitionLoop lt xa (xg, xb, xc)" "(xi, y) = xh" "(xj, ya) = y"
  shows "start \<le> xj \<and> xj + 1 < fin"
proof -
  have "xj = fst (snd (partitionLoop lt xa (xg, xb, xc)))"
    using assms(8,9,10) by (metis fst_conv snd_conv)
  with partitionLoop_bounds [of xb lt xa xg xc]
  have "xb \<le> xj \<and> xj \<le> max xb xc"
    by simp
  with assms(1-7) show ?thesis
    by auto
qed

text \<open>
  The function of Qt that is modelled. The iterators are positions of the list, and the
  jump to \<^verbatim>\<open>top\<close> is the second recursive call.
  \<^verbatim>\<open>
  template <typename RandomAccessIterator, typename T, typename LessThan>
  void qSortHelper(RandomAccessIterator start, RandomAccessIterator end,
                   const T &t, LessThan lessThan)
  {
  top:
      int span = int(end - start);
      if (span < 2)
          return;
      --end;
      RandomAccessIterator low = start, high = end - 1;
      RandomAccessIterator pivot = start + span / 2;
      if (lessThan(*end, *start))
          qSwap(*end, *start);
      if (span == 2)
          return;
      if (lessThan(*pivot, *start))
          qSwap(*pivot, *start);
      if (lessThan(*end, *pivot))
          qSwap(*end, *pivot);
      if (span == 3)
          return;
      qSwap(*pivot, *end);
      while (low < high) {
          while (low < high && lessThan(*low, *end))
              ++low;
          while (high > low && lessThan(*end, *high))
              --high;
          if (low < high) {
              qSwap(*low, *high);
              ++low;
              --high;
          } else {
              break;
          }
      }
      if (lessThan(*low, *end))
          ++low;
      qSwap(*end, *low);
      qSortHelper(start, low, t, lessThan);
      start = low + 1;
      ++end;
      goto top;
  }
  \<close>
\<close>

function qSortHelper :: "('a \<Rightarrow> 'a \<Rightarrow> bool) \<Rightarrow> nat \<Rightarrow> nat \<Rightarrow> 'a list \<Rightarrow> 'a list" where
  "qSortHelper lt start fin xs =
     (let span = fin - start in
      if span < 2 then xs
      else
        (let e = fin - 1; low = start; high = e - 1; pivot = start + span div 2;
             xs = (if lt (xs ! e) (xs ! start) then qSwap e start xs else xs)
         in if span = 2 then xs
            else
              (let xs = (if lt (xs ! pivot) (xs ! start) then qSwap pivot start xs else xs);
                   xs = (if lt (xs ! e) (xs ! pivot) then qSwap e pivot xs else xs)
               in if span = 3 then xs
                  else
                    (let xs = qSwap pivot e xs;
                         (xs, low, high) = partitionLoop lt e (xs, low, high);
                         low = (if lt (xs ! low) (xs ! e) then low + 1 else low);
                         xs = qSwap e low xs;
                         xs = qSortHelper lt start low xs
                     in qSortHelper lt (low + 1) fin xs))))"
  by pat_completeness (simp only: prod.inject)

termination
proof (relation "measure (\<lambda>(lt, start, fin, xs). fin - start)", goal_cases)
  case 1
  show ?case by simp
next
  case (2 lt start fin xs x xa xb xc xd xe xf xea xg xh xi y xj ya xk xl)
  have "start \<le> xj \<and> xj + 1 < fin"
    by (rule cut_bounds [OF 2(1) 2(2) 2(3) 2(4) 2(5) 2(8) 2(11) 2(13) 2(14) 2(15)])
  with 2(16) show ?case
    by (simp split: if_splits)
next
  case (3 lt start fin xs x xa xb xc xd xe xf xea xg xh xi y xj ya xk xl xm)
  have "start \<le> xj \<and> xj + 1 < fin"
    by (rule cut_bounds [OF 3(1) 3(2) 3(3) 3(4) 3(5) 3(8) 3(11) 3(13) 3(14) 3(15)])
  with 3(16) show ?case
    by (simp split: if_splits)
qed

declare qSortHelper.simps [simp del]

definition qSort :: "('a \<Rightarrow> 'a \<Rightarrow> bool) \<Rightarrow> 'a list \<Rightarrow> 'a list" where
  \<comment> \<open>\<^verbatim>\<open>if (start != end) qSortHelper(start, end, *start, lessThan);\<close>\<close>
  "qSort lt xs = (if xs \<noteq> [] then qSortHelper lt 0 (length xs) xs else xs)"

subsection \<open>The widgets of the form\<close>

datatype TextFormat = PlainText | RichText | AutoText

record QLabel =
  labelText :: QString
  toolTip :: QString
  textFormat :: TextFormat
  styleSheet :: QString

definition newQLabel :: "QString \<Rightarrow> QLabel" where
  \<comment> \<open>\<^verbatim>\<open>new QLabel(text)\<close>\<close>
  "newQLabel t = \<lparr>labelText = t, toolTip = [], textFormat = AutoText, styleSheet = []\<rparr>"

text \<open>
  A \<^verbatim>\<open>QTimer\<close> is single-shot or not and, while it is active, has the time (in
  milliseconds of the event loop's clock) at which it times out.
\<close>

record QTimer =
  singleShot :: bool
  expiry :: "nat option"

definition newQTimer :: QTimer where
  "newQTimer = \<lparr>singleShot = False, expiry = None\<rparr>"

text \<open>
  \<^verbatim>\<open>GroupNetCamView\<close> is not among the sources; no result below is about it. It is
  represented by the peers it shows, with their names.
\<close>

type_synonym 'pk GroupNetCamView = "('pk, QString) QMap"

definition addPeer :: "'pk::linorder \<Rightarrow> QString \<Rightarrow> 'pk GroupNetCamView \<Rightarrow> 'pk GroupNetCamView" where
  "addPeer peerPk name view = qmap_insert peerPk name view"

definition removePeer :: "'pk \<Rightarrow> 'pk GroupNetCamView \<Rightarrow> 'pk GroupNetCamView" where
  "removePeer peerPk view = filter (\<lambda>(k, n). k \<noteq> peerPk) view"

definition clearPeers :: "'pk GroupNetCamView \<Rightarrow> 'pk GroupNetCamView" where
  "clearPeers view = []"

text \<open>
  The labels are heap objects, and \<^verbatim>\<open>peerLabels\<close> and \<^verbatim>\<open>namesListLayout\<close> hold
  pointers to the same objects. Every label is created for one key and stored under it in
  \<^verbatim>\<open>peerLabels\<close>, and all labels are destroyed together; so \<open>peerLabels\<close> here holds the
  label objects themselves, and a pointer to a label is the key under which
  \<open>peerLabels\<close> holds it. A write through a pointer of the layout is then a write to the
  label that \<open>peerLabels\<close> holds, as in the source. A timer pointer is \<open>None\<close> when it
  is null.
\<close>

type_synonym 'pk QLabelPtr = 'pk

record 'pk GroupChatForm =
  namesListLayout :: "'pk QLabelPtr list"
  peerLabels :: "('pk, QLabel) QMap"
  peerAudioTimers :: "('pk, QTimer option) QMap"
  netcam :: "'pk GroupNetCamView option"

datatype fault = NullPointerDereference | EmptyListAccess | EndIteratorDereference

subsection \<open>GroupChatForm::updateUserNames\<close>

text \<open>
  The parameters stand for what the function reads from outside the form:
  \<^verbatim>\<open>QString::toLower\<close>, \<^verbatim>\<open>qSort\<close>, \<^verbatim>\<open>ToxPk::toString\<close>,
  \<^verbatim>\<open>Core::getSelfPublicKey()\<close>, \<^verbatim>\<open>Settings::getBlackList()\<close> and
  \<^verbatim>\<open>Group::getPeerList()\<close>.
\<close>

definition addNameLabel ::
  "('pk \<Rightarrow> QString) \<Rightarrow> 'pk \<Rightarrow> QString list \<Rightarrow> ('pk, QString) QMap \<Rightarrow>
   'pk::linorder \<Rightarrow> 'pk GroupChatForm \<Rightarrow> 'pk GroupChatForm" where
  \<comment> \<open>the body of the loop over \<^verbatim>\<open>peers.keys()\<close>, lines 238 to 255\<close>
  "addNameLabel toString selfPk blackList peers peerPk s =
     (let fullName = qmap_value peers peerPk [];
          editedName = editName fullName @ QStringLiteral '', '';
          label = newQLabel editedName;
          label = (if editedName \<noteq> fullName then label\<lparr>toolTip := fullName\<rparr> else label);
          label = label\<lparr>textFormat := PlainText\<rparr>;
          (label, s) =
            (if peerPk = selfPk
             then (label\<lparr>styleSheet := QStringLiteral ''QLabel {color : green;}''\<rparr>, s)
             else if toString peerPk \<in> set blackList
             then (label\<lparr>styleSheet := QStringLiteral ''QLabel {color : darkRed;}''\<rparr>, s)
             else (case netcam s of
                     Some view \<Rightarrow> (label, s\<lparr>netcam := Some (addPeer peerPk fullName view)\<rparr>)
                   | None \<Rightarrow> (label, s)))
      in s\<lparr>peerLabels := qmap_insert peerPk label (peerLabels s)\<rparr>)"

definition labelPtrs :: "('pk, QLabel) QMap \<Rightarrow> 'pk QLabelPtr list" where
  \<comment> \<open>\<^verbatim>\<open>peerLabels.values()\<close>: the label pointers, in ascending order of their keys\<close>
  "labelPtrs m = map fst m"

definition labelTextAt :: "'pk GroupChatForm \<Rightarrow> 'pk QLabelPtr \<Rightarrow> QString" where
  \<comment> \<open>\<^verbatim>\<open>a->text()\<close> in the comparison of the sort; every pointer that is compared
      comes from \<open>peerLabels\<close>, the other case is never evaluated\<close>
  "labelTextAt s p = (case map_of (peerLabels s) p of Some l \<Rightarrow> labelText l | None \<Rightarrow> [])"

definition updateUserNames ::
  "(QString \<Rightarrow> QString) \<Rightarrow> (('pk \<Rightarrow> 'pk \<Rightarrow> bool) \<Rightarrow> 'pk list \<Rightarrow> 'pk list) \<Rightarrow>
   ('pk \<Rightarrow> QString) \<Rightarrow> 'pk \<Rightarrow> QString list \<Rightarrow> ('pk, QString) QMap \<Rightarrow>
   'pk::linorder GroupChatForm \<Rightarrow> fault + 'pk GroupChatForm" where
  "updateUserNames toLower srt toString selfPk blackList peers s0 =
     (let s = s0\<lparr>namesListLayout := []\<rparr>;
          s = s\<lparr>peerLabels := []\<rparr>
      in if peers = [] then Inr s
         else
           (let s = fold (addNameLabel toString selfPk blackList peers) (qmap_keys peers) s;
                s = (case netcam s of
                       Some view \<Rightarrow> s\<lparr>netcam := Some (clearPeers view)\<rparr>
                     | None \<Rightarrow> s);
                nickLabelList =
                  srt (\<lambda>a b. toLower (labelTextAt s a) < toLower (labelTextAt s b))
                    (labelPtrs (peerLabels s))
            in if nickLabelList = [] then Inl EmptyListAccess
               else
                 (let lastLabel = last nickLabelList in
                  case map_of (peerLabels s) lastLabel of
                    None \<Rightarrow> Inl NullPointerDereference
                  | Some l \<Rightarrow>
                      (let labelText = chop 2 (labelText l);
                           s = s\<lparr>peerLabels :=
                                  qmap_insert lastLabel (l\<lparr>labelText := labelText\<rparr>) (peerLabels s)\<rparr>
                       in Inr (s\<lparr>namesListLayout := nickLabelList\<rparr>)))))"

definition layoutLabels :: "'pk GroupChatForm \<Rightarrow> QLabel list" where
  \<comment> \<open>the labels that the layout shows, in its order\<close>
  "layoutLabels s = List.map_filter (map_of (peerLabels s)) (namesListLayout s)"

definition toLower_ascii :: "QString \<Rightarrow> QString" where
  \<comment> \<open>\<^verbatim>\<open>QString::toLower\<close> on strings whose letters are ASCII letters\<close>
  "toLower_ascii str = map (\<lambda>c. if 0x41 \<le> c \<and> c \<le> 0x5A then c + 0x20 else c) str"

subsection \<open>GroupChatForm::peerAudioPlaying and the timeout of its timer\<close>

definition peerAudioTimeout :: "'pk::linorder \<Rightarrow> 'pk GroupChatForm \<Rightarrow> fault + 'pk GroupChatForm" where
  \<comment> \<open>the function connected to \<^verbatim>\<open>QTimer::timeout\<close>, lines 287 to 295\<close>
  "peerAudioTimeout peerPk s0 =
     (let s = (case netcam s0 of
                 Some view \<Rightarrow> s0\<lparr>netcam := Some (removePeer peerPk view)\<rparr>
               | None \<Rightarrow> s0)
      in case map_of (peerLabels s) peerPk of
           None \<Rightarrow> Inl NullPointerDereference
         | Some label \<Rightarrow>
             (let s = s\<lparr>peerLabels := qmap_insert peerPk (label\<lparr>styleSheet := []\<rparr>) (peerLabels s)\<rparr>
              in Inr (s\<lparr>peerAudioTimers := qmap_insert peerPk None (peerAudioTimers s)\<rparr>)))"

definition peerAudioPlaying ::
  "nat \<Rightarrow> ('pk, QString) QMap \<Rightarrow> 'pk::linorder \<Rightarrow> 'pk GroupChatForm \<Rightarrow> fault + 'pk GroupChatForm" where
  \<comment> \<open>\<open>now\<close> is the clock of the event loop, \<open>peers\<close> is \<^verbatim>\<open>group->getPeerList()\<close>\<close>
  "peerAudioPlaying now peers peerPk s0 =
     (case map_of (peerLabels s0) peerPk of
        None \<Rightarrow> Inl NullPointerDereference
      | Some label \<Rightarrow>
          (let s = s0\<lparr>peerLabels :=
                       qmap_insert peerPk
                         (label\<lparr>styleSheet := QStringLiteral ''QLabel {color : red;}''\<rparr>)
                         (peerLabels s0)\<rparr>;
               (timer, timers) = qmap_subscript peerPk None (peerAudioTimers s);
               s = s\<lparr>peerAudioTimers := timers\<rparr>;
               r = (if timer = None then
                      (let s = s\<lparr>peerAudioTimers :=
                                    qmap_insert peerPk (Some (newQTimer\<lparr>singleShot := True\<rparr>))
                                      (peerAudioTimers s)\<rparr>
                       in case netcam s of
                            None \<Rightarrow> Inr s
                          | Some view \<Rightarrow>
                              (case map_of peers peerPk of
                                 None \<Rightarrow> Inl EndIteratorDereference
                               | Some name \<Rightarrow>
                                   Inr (s\<lparr>netcam :=
                                            Some (addPeer peerPk name (removePeer peerPk view))\<rparr>)))
                    else Inr s)
           in case r of
                Inl e \<Rightarrow> Inl e
              | Inr s \<Rightarrow>
                  (case map_of (peerAudioTimers s) peerPk of
                     Some (Some t) \<Rightarrow>
                       Inr (s\<lparr>peerAudioTimers :=
                                qmap_insert peerPk (Some (t\<lparr>expiry := Some (now + 500)\<rparr>))
                                  (peerAudioTimers s)\<rparr>)
                   | _ \<Rightarrow> Inl NullPointerDereference)))"

definition speaking :: "'pk GroupChatForm \<Rightarrow> 'pk \<Rightarrow> bool" where
  \<comment> \<open>a peer counts as speaking while the form holds a timer object for it\<close>
  "speaking s peerPk = (case map_of (peerAudioTimers s) peerPk of Some (Some t) \<Rightarrow> True | _ \<Rightarrow> False)"

subsection \<open>The event loop\<close>

text \<open>
  The form runs on the single thread of Qt's event loop. A run of the loop is given by the
  events that arrive, with their times: audio of a peer (the slot \<^verbatim>\<open>peerAudioPlaying\<close>)
  and a change of the peer list of the group (which reaches \<^verbatim>\<open>updateUserNames\<close>). Before
  an event of time \<open>t\<close> is delivered, the active timers that expire by \<open>t\<close> time out, the
  earliest first. The run records the time and the outcome of every function it calls, and
  stops at the first fault.
\<close>

datatype 'pk event = AudioPlaying 'pk | UserListChanged "('pk, QString) QMap"

definition dueTimers :: "nat \<Rightarrow> 'pk GroupChatForm \<Rightarrow> (nat \<times> 'pk) list" where
  "dueTimers t s =
     sort_key fst
       (concat (map (\<lambda>(k, p). case p of
                                 Some tm \<Rightarrow> (case expiry tm of
                                               Some d \<Rightarrow> if d \<le> t then [(d, k)] else []
                                             | None \<Rightarrow> [])
                               | None \<Rightarrow> [])
                    (peerAudioTimers s)))"

fun timeouts ::
  "(nat \<times> 'pk::linorder) list \<Rightarrow> 'pk GroupChatForm \<Rightarrow>
   (nat \<times> (fault + 'pk GroupChatForm)) list \<times> (fault + 'pk GroupChatForm)" where
  "timeouts [] s = ([], Inr s)"
| "timeouts ((d, k) # rest) s =
     (case peerAudioTimeout k s of
        Inl e \<Rightarrow> ([(d, Inl e)], Inl e)
      | Inr s' \<Rightarrow> (let (tr, r) = timeouts rest s' in ((d, Inr s') # tr, r)))"

fun run ::
  "(QString \<Rightarrow> QString) \<Rightarrow> (('pk \<Rightarrow> 'pk \<Rightarrow> bool) \<Rightarrow> 'pk list \<Rightarrow> 'pk list) \<Rightarrow>
   ('pk \<Rightarrow> QString) \<Rightarrow> 'pk \<Rightarrow> QString list \<Rightarrow>
   (nat \<times> 'pk event) list \<Rightarrow> nat \<Rightarrow> ('pk, QString) QMap \<Rightarrow> 'pk::linorder GroupChatForm \<Rightarrow>
   (nat \<times> (fault + 'pk GroupChatForm)) list" where
  "run toLower srt toString selfPk blackList [] tEnd peers s = fst (timeouts (dueTimers tEnd s) s)"
| "run toLower srt toString selfPk blackList ((t, ev) # evs) tEnd peers s =
     (case timeouts (dueTimers t s) s of
        (tr, Inl e) \<Rightarrow> tr
      | (tr, Inr s1) \<Rightarrow>
          (let peers' = (case ev of UserListChanged ps \<Rightarrow> ps | AudioPlaying k \<Rightarrow> peers);
               r = (case ev of
                      UserListChanged ps \<Rightarrow>
                        updateUserNames toLower srt toString selfPk blackList ps s1
                    | AudioPlaying k \<Rightarrow> peerAudioPlaying t peers k s1)
           in case r of
                Inl e \<Rightarrow> tr @ [(t, Inl e)]
              | Inr s2 \<Rightarrow>
                  tr @ (t, Inr s2) # run toLower srt toString selfPk blackList evs tEnd peers' s2))"

definition statusLog ::
  "'pk \<Rightarrow> (nat \<times> (fault + 'pk GroupChatForm)) list \<Rightarrow> (nat \<times> (fault + bool)) list" where
  \<comment> \<open>whether the peer is speaking after each call of the run\<close>
  "statusLog peerPk tr = map (\<lambda>(t, r). (t, map_sum id (\<lambda>s. speaking s peerPk) r)) tr"


subsection \<open>Notions used to state the results\<close>

text \<open>
  For the quicksort: a list is a rearrangement of another within a range of positions, the
  state of the partitioning loop is consistent, a range is sorted, and a range is split
  around the element at a position.
\<close>

definition perm_in :: "'a list \<Rightarrow> 'a list \<Rightarrow> nat \<Rightarrow> nat \<Rightarrow> bool" where
  "perm_in xs ys a b =
     (length ys = length xs \<and> mset ys = mset xs \<and>
      (\<forall>i. i < a \<or> b \<le> i \<longrightarrow> ys ! i = xs ! i) \<and>
      (\<lambda>i. ys ! i) ` {a..<b} = (\<lambda>i. xs ! i) ` {a..<b})"

definition partition_inv ::
  "('a \<Rightarrow> 'a \<Rightarrow> bool) \<Rightarrow> nat \<Rightarrow> nat \<Rightarrow> 'a list \<times> nat \<times> nat \<Rightarrow> bool" where
  "partition_inv lt a e st =
     (case st of (xs, low, high) \<Rightarrow>
        a \<le> low \<and> high < e \<and> e < length xs \<and> low \<le> high + 1 \<and>
        (\<forall>i. a \<le> i \<and> i < low \<longrightarrow> \<not> lt (xs ! e) (xs ! i)) \<and>
        (\<forall>i. high < i \<and> i < e \<longrightarrow> \<not> lt (xs ! i) (xs ! e)))"

definition sorted_in :: "('a \<Rightarrow> 'a \<Rightarrow> bool) \<Rightarrow> 'a list \<Rightarrow> nat \<Rightarrow> nat \<Rightarrow> bool" where
  "sorted_in lt xs a b = (\<forall>i j. a \<le> i \<and> i < j \<and> j < b \<longrightarrow> \<not> lt (xs ! j) (xs ! i))"

definition pivoted :: "('a \<Rightarrow> 'a \<Rightarrow> bool) \<Rightarrow> 'a list \<Rightarrow> nat \<Rightarrow> nat \<Rightarrow> nat \<Rightarrow> bool" where
  "pivoted lt xs c a b =
     (a \<le> c \<and> c < b \<and>
      (\<forall>i. a \<le> i \<and> i < c \<longrightarrow> \<not> lt (xs ! c) (xs ! i)) \<and>
      (\<forall>i. c < i \<and> i < b \<longrightarrow> \<not> lt (xs ! i) (xs ! c)))"

text \<open>
  For \<^verbatim>\<open>updateUserNames\<close>: the label that the loop creates for a peer, the map of
  labels that the loop leaves in \<open>peerLabels\<close>, the sorted list of label pointers, and
  the layout and labels of the form at the end (or the fault), as functions of the inputs
  of \<^verbatim>\<open>updateUserNames\<close> alone.
\<close>

definition nameLabel ::
  "('pk \<Rightarrow> QString) \<Rightarrow> 'pk \<Rightarrow> QString list \<Rightarrow> ('pk, QString) QMap \<Rightarrow> 'pk \<Rightarrow> QLabel" where
  "nameLabel toString selfPk blackList peers peerPk =
     \<lparr>labelText = editName (qmap_value peers peerPk []) @ QStringLiteral '', '',
      toolTip = qmap_value peers peerPk [],
      textFormat = PlainText,
      styleSheet =
        (if peerPk = selfPk then QStringLiteral ''QLabel {color : green;}''
         else if toString peerPk \<in> set blackList then QStringLiteral ''QLabel {color : darkRed;}''
         else [])\<rparr>"

definition builtLabels ::
  "('pk \<Rightarrow> QString) \<Rightarrow> 'pk \<Rightarrow> QString list \<Rightarrow> ('pk::linorder, QString) QMap \<Rightarrow> ('pk, QLabel) QMap" where
  "builtLabels toString selfPk blackList peers =
     fold (\<lambda>k. qmap_insert k (nameLabel toString selfPk blackList peers k)) (qmap_keys peers) []"

definition sortedPtrs ::
  "(QString \<Rightarrow> QString) \<Rightarrow> (('pk \<Rightarrow> 'pk \<Rightarrow> bool) \<Rightarrow> 'pk list \<Rightarrow> 'pk list) \<Rightarrow> ('pk, QLabel) QMap \<Rightarrow> 'pk list" where
  "sortedPtrs toLower srt m =
     srt (\<lambda>a b. toLower (case map_of m a of Some l \<Rightarrow> labelText l | None \<Rightarrow> [])
               < toLower (case map_of m b of Some l \<Rightarrow> labelText l | None \<Rightarrow> []))
       (labelPtrs m)"

definition layoutOutcome ::
  "(QString \<Rightarrow> QString) \<Rightarrow> (('pk \<Rightarrow> 'pk \<Rightarrow> bool) \<Rightarrow> 'pk list \<Rightarrow> 'pk list) \<Rightarrow>
   ('pk \<Rightarrow> QString) \<Rightarrow> 'pk \<Rightarrow> QString list \<Rightarrow> ('pk::linorder, QString) QMap \<Rightarrow>
   fault + 'pk list \<times> ('pk, QLabel) QMap" where
  "layoutOutcome toLower srt toString selfPk blackList peers =
     (let m = builtLabels toString selfPk blackList peers;
          nick = sortedPtrs toLower srt m
      in if peers = [] then Inr ([], [])
         else if nick = [] then Inl EmptyListAccess
         else (case map_of m (last nick) of
                 None \<Rightarrow> Inl NullPointerDereference
               | Some l \<Rightarrow> Inr (nick, qmap_insert (last nick) (l\<lparr>labelText := chop 2 (labelText l)\<rparr>) m)))"

definition sortKey :: "(QString \<Rightarrow> QString) \<Rightarrow> QString \<Rightarrow> QString" where
  \<comment> \<open>what the comparison of the sort reads for a peer of the given name: the lowercased
      text of its label, which is the edited name followed by the separator\<close>
  "sortKey toLower fullName = toLower (editName fullName @ QStringLiteral '', '')"






subsection \<open>Sample data\<close>

text \<open>
  A form without peers, and the forms that \<^verbatim>\<open>updateUserNames\<close> makes of two peer lists.
\<close>

definition emptyForm :: "nat GroupChatForm" where
  "emptyForm = \<lparr>namesListLayout = [], peerLabels = [], peerAudioTimers = [], netcam = None\<rparr>"

definition demoPeers :: "(nat, QString) QMap" where
  "demoPeers = [(1, QStringLiteral ''Me''), (2, QStringLiteral ''Eve''), (3, QStringLiteral ''Al\<newline>ice'')]"

definition demoToString :: "nat \<Rightarrow> QString" where
  "demoToString k = (if k = 2 then QStringLiteral ''P2'' else QStringLiteral ''P'')"

definition demoForm :: "nat GroupChatForm" where
  "demoForm =
     \<lparr>namesListLayout = [3, 2, 1],
      peerLabels =
        [(1, \<lparr>labelText = QStringLiteral ''Me'', toolTip = QStringLiteral ''Me'',
               textFormat = PlainText, styleSheet = QStringLiteral ''QLabel {color : green;}''\<rparr>),
         (2, \<lparr>labelText = QStringLiteral ''Eve, '', toolTip = QStringLiteral ''Eve'',
               textFormat = PlainText, styleSheet = QStringLiteral ''QLabel {color : darkRed;}''\<rparr>),
         (3, \<lparr>labelText = QStringLiteral ''Al'' @ [ellipsis] @ QStringLiteral '', '',
               toolTip = QStringLiteral ''Al\<newline>ice'',
               textFormat = PlainText, styleSheet = []\<rparr>)],
      peerAudioTimers = [],
      netcam = None\<rparr>"

definition tiedPeers :: "(nat, QString) QMap" where
  "tiedPeers = [(1, QStringLiteral ''Bo''), (2, QStringLiteral ''bo''), (3, QStringLiteral ''BO'')]"

definition tiedForm :: "nat GroupChatForm" where
  "tiedForm =
     \<lparr>namesListLayout = [1, 2, 3],
      peerLabels =
        [(1, \<lparr>labelText = QStringLiteral ''Bo, '', toolTip = QStringLiteral ''Bo'',
               textFormat = PlainText, styleSheet = QStringLiteral ''QLabel {color : green;}''\<rparr>),
         (2, \<lparr>labelText = QStringLiteral ''bo, '', toolTip = QStringLiteral ''bo'',
               textFormat = PlainText, styleSheet = []\<rparr>),
         (3, \<lparr>labelText = QStringLiteral ''BO'', toolTip = QStringLiteral ''BO'',
               textFormat = PlainText, styleSheet = []\<rparr>)],
      peerAudioTimers = [],
      netcam = None\<rparr>"


subsection \<open>Properties of editName\<close>

lemma indexOf_ge: "- 1 \<le> indexOf P s"
  by (induction s) (auto simp: Let_def)

lemma indexOf_none: "(indexOf P s = - 1) = (\<forall>c \<in> set s. \<not> P c)"
proof (induction s)
  case Nil
  show ?case by simp
next
  case (Cons c cs)
  have "- 1 \<le> indexOf P cs" by (rule indexOf_ge)
  then have "indexOf P cs + 1 \<noteq> - 1" by arith
  with Cons show ?case by (auto simp: Let_def)
qed

lemma indexOf_takeWhile:
  "indexOf P s \<noteq> - 1 \<Longrightarrow> indexOf P s = int (length (takeWhile (\<lambda>c. \<not> P c) s))"
  by (induction s) (auto simp: Let_def split: if_splits)

lemma length_takeWhile_less:
  "\<exists>c \<in> set s. P c \<Longrightarrow> length (takeWhile (\<lambda>c. \<not> P c) s) < length s"
  by (induction s) auto

lemma take_length_takeWhile: "take (length (takeWhile Q s)) s = takeWhile Q s"
  by (induction s) auto

lemma editName_unchanged: "\<forall>c \<in> set s. \<not> isNewline c \<Longrightarrow> editName s = s"
  using indexOf_none [of isNewline s] by (simp add: editName_def)

lemma editName_truncated:
  assumes "\<exists>c \<in> set s. isNewline c"
  shows "editName s = takeWhile (\<lambda>c. \<not> isNewline c) s @ [ellipsis]"
proof -
  let ?n = "length (takeWhile (\<lambda>c. \<not> isNewline c) s)"
  from assms have ne: "indexOf isNewline s \<noteq> - 1"
    by (simp add: indexOf_none)
  then have pos: "indexOf isNewline s = int ?n"
    by (rule indexOf_takeWhile)
  from assms have lt: "?n < length s"
    by (rule length_takeWhile_less)
  then have "chop (int (length s) - int ?n) s = take ?n s"
    by (simp add: chop_def nat_diff_distrib')
  then have "chop (int (length s) - int ?n) s = takeWhile (\<lambda>c. \<not> isNewline c) s"
    by (simp add: take_length_takeWhile)
  with ne pos show ?thesis
    by (simp add: editName_def Let_def)
qed

text \<open>
  C5. \<^verbatim>\<open>editName\<close> returns its input unchanged when the input holds no line feed and no
  carriage return; otherwise it returns the part strictly before the first such unit,
  followed by the single unit U+2026. In particular \<^verbatim>\<open>editName("Alice\nSmith")\<close> is
  \<^verbatim>\<open>"Alice"\<close> followed by U+2026, and \<^verbatim>\<open>editName("Bob")\<close> is \<^verbatim>\<open>"Bob"\<close>.
\<close>

theorem editName_spec:
  "((\<forall>c \<in> set s. \<not> isNewline c) \<longrightarrow> editName s = s) \<and>
   ((\<exists>c \<in> set s. isNewline c) \<longrightarrow>
      editName s = takeWhile (\<lambda>c. \<not> isNewline c) s @ [ellipsis]) \<and>
   editName (QStringLiteral ''Alice\<newline>Smith'') = QStringLiteral ''Alice'' @ [ellipsis] \<and>
   editName (QStringLiteral ''Bob'') = QStringLiteral ''Bob''"
proof (intro conjI impI)
  show "editName (QStringLiteral ''Alice\<newline>Smith'') = QStringLiteral ''Alice'' @ [ellipsis]"
    by (simp add: editName_def QStringLiteral_def isNewline_def chop_def Let_def)
  show "editName (QStringLiteral ''Bob'') = QStringLiteral ''Bob''"
    by (simp add: editName_def QStringLiteral_def isNewline_def Let_def)
qed (simp_all add: editName_unchanged editName_truncated)

theorem editName_spec_witness:
  "editName [0x41, 0x0D, 0x0A, 0x42] = [0x41, ellipsis] \<and>
   editName [0x41, 0x42] = [0x41, 0x42]"
proof -
  have a: "\<exists>c \<in> set [0x41, 0x0D, 0x0A, 0x42 :: QChar]. isNewline c"
    by (simp add: isNewline_def)
  have b: "\<forall>c \<in> set [0x41, 0x42 :: QChar]. \<not> isNewline c"
    by (simp add: isNewline_def)
  from a editName_spec [of "[0x41, 0x0D, 0x0A, 0x42]"]
  have "editName [0x41, 0x0D, 0x0A, 0x42] =
      takeWhile (\<lambda>c. \<not> isNewline c) [0x41, 0x0D, 0x0A, 0x42] @ [ellipsis]"
    by blast
  moreover from b editName_spec [of "[0x41, 0x42]"]
  have "editName [0x41, 0x42] = [0x41, 0x42]"
    by blast
  ultimately show ?thesis
    by (simp add: isNewline_def)
qed

subsection \<open>Facts about QMap\<close>

lemma map_of_qmap_insert: "map_of (qmap_insert k v m) = (map_of m)(k \<mapsto> v)"
  by (induction m) (auto simp: fun_eq_iff)

lemma keys_qmap_insert: "fst ` set (qmap_insert k v m) = insert k (fst ` set m)"
proof -
  have "fst ` set (qmap_insert k v m) = dom (map_of (qmap_insert k v m))"
    by (simp add: dom_map_of_conv_image_fst)
  also have "\<dots> = insert k (dom (map_of m))"
    by (simp add: map_of_qmap_insert)
  finally show ?thesis
    by (simp add: dom_map_of_conv_image_fst)
qed

lemma qmap_inv_Nil: "qmap_inv []"
  by (simp add: qmap_inv_def)

lemma qmap_inv_insert: "qmap_inv m \<Longrightarrow> qmap_inv (qmap_insert k v m)"
proof (induction m)
  case Nil
  show ?case by (simp add: qmap_inv_def)
next
  case (Cons p m)
  obtain k' v' where p: "p = (k', v')" by (cases p)
  from Cons.prems have inv: "qmap_inv m" and less: "\<forall>x \<in> fst ` set m. k' < x"
    by (auto simp: qmap_inv_def p)
  show ?case
  proof (cases "k = k' \<or> k < k'")
    case True
    with Cons.prems less show ?thesis
      by (auto simp: qmap_inv_def p)
  next
    case False
    then have "k' < k" by auto
    moreover from inv have "qmap_inv (qmap_insert k v m)" by (rule Cons.IH)
    ultimately show ?thesis
      using False less keys_qmap_insert [of k v m]
      by (auto simp: qmap_inv_def p)
  qed
qed

lemma qmap_inv_distinct: "qmap_inv m \<Longrightarrow> distinct (map fst m)"
  by (simp add: qmap_inv_def strict_sorted_iff)

text \<open>Inserting, for every key of a list, a value that depends on the key only.\<close>

lemma map_of_fold_insert:
  "map_of (fold (\<lambda>k. qmap_insert k (f k)) ks m) x =
     (if x \<in> set ks then Some (f x) else map_of m x)"
  by (induction ks arbitrary: m) (auto simp: map_of_qmap_insert)

lemma keys_fold_insert:
  "fst ` set (fold (\<lambda>k. qmap_insert k (f k)) ks m) = set ks \<union> fst ` set m"
  by (induction ks arbitrary: m) (simp_all add: keys_qmap_insert)

lemma qmap_inv_fold_insert:
  "qmap_inv m \<Longrightarrow> qmap_inv (fold (\<lambda>k. qmap_insert k (f k)) ks m)"
  by (induction ks arbitrary: m) (auto simp: qmap_inv_insert)

lemma mset_keys_fold_insert:
  assumes "distinct ks"
  shows "mset (map fst (fold (\<lambda>k. qmap_insert k (f k)) ks [])) = mset ks"
proof -
  let ?m = "fold (\<lambda>k. qmap_insert k (f k)) ks []"
  have "distinct (map fst ?m)"
    by (intro qmap_inv_distinct qmap_inv_fold_insert qmap_inv_Nil)
  moreover have "set (map fst ?m) = set ks"
    by (simp add: keys_fold_insert)
  ultimately have "mset (map fst ?m) = mset ks"
    using assms by (subst set_eq_iff_mset_eq_distinct [symmetric]) simp_all
  then show ?thesis .
qed


subsection \<open>The labels that updateUserNames builds\<close>

lemma editName_sep_neq: "editName n @ QStringLiteral '', '' \<noteq> n"
proof (cases "\<exists>c \<in> set n. isNewline c")
  case False
  then have "editName n = n"
    by (simp add: editName_unchanged)
  then show ?thesis
    by (simp add: QStringLiteral_def)
next
  case True
  let ?p = "takeWhile (\<lambda>c. \<not> isNewline c) n"
  from True have e: "editName n = ?p @ [ellipsis]"
    by (rule editName_truncated)
  from True have "dropWhile (\<lambda>c. \<not> isNewline c) n \<noteq> []"
    by auto
  then obtain c r where d: "dropWhile (\<lambda>c. \<not> isNewline c) n = c # r"
    by (cases "dropWhile (\<lambda>c. \<not> isNewline c) n") auto
  then have "isNewline c"
    using hd_dropWhile [of "\<lambda>c. \<not> isNewline c" n] by auto
  then have c: "c \<noteq> ellipsis"
    by (auto simp: isNewline_def ellipsis_def)
  have n: "n = ?p @ c # r"
    using takeWhile_dropWhile_id [of "\<lambda>c. \<not> isNewline c" n] d by simp
  show ?thesis
  proof
    assume "editName n @ QStringLiteral '', '' = n"
    with e have "?p @ ellipsis # QStringLiteral '', '' = n"
      by simp
    with n have "?p @ ellipsis # QStringLiteral '', '' = ?p @ c # r"
      by simp
    with c show False
      by simp
  qed
qed

lemma addNameLabel_peerLabels:
  "peerLabels (addNameLabel toString selfPk blackList peers k s) =
     qmap_insert k (nameLabel toString selfPk blackList peers k) (peerLabels s)"
  by (simp add: addNameLabel_def nameLabel_def newQLabel_def Let_def editName_sep_neq
      split: option.split)

lemma addNameLabel_others:
  "namesListLayout (addNameLabel toString selfPk blackList peers k s) = namesListLayout s \<and>
   peerAudioTimers (addNameLabel toString selfPk blackList peers k s) = peerAudioTimers s"
  by (simp add: addNameLabel_def Let_def split: option.split)

lemma fold_addNameLabel:
  "peerLabels (fold (addNameLabel toString selfPk blackList peers) ks s) =
     fold (\<lambda>k. qmap_insert k (nameLabel toString selfPk blackList peers k)) ks (peerLabels s) \<and>
   namesListLayout (fold (addNameLabel toString selfPk blackList peers) ks s) = namesListLayout s \<and>
   peerAudioTimers (fold (addNameLabel toString selfPk blackList peers) ks s) = peerAudioTimers s"
  by (induction ks arbitrary: s) (simp_all add: addNameLabel_peerLabels addNameLabel_others)

lemma strict_weak_order_key: "strict_weak_order (\<lambda>a b. f a < (f b :: 'b :: linorder))"
  by (auto simp: strict_weak_order_def)

lemma labelTextAt_eq:
  "labelTextAt s = (\<lambda>p. case map_of (peerLabels s) p of Some l \<Rightarrow> labelText l | None \<Rightarrow> [])"
  by (simp add: labelTextAt_def fun_eq_iff)

lemma builtLabels_lookup:
  "map_of (builtLabels toString selfPk blackList peers) k =
     (if k \<in> fst ` set peers then Some (nameLabel toString selfPk blackList peers k) else None)"
  by (simp add: builtLabels_def map_of_fold_insert qmap_keys_def)

lemma builtLabels_keys:
  "set (labelPtrs (builtLabels toString selfPk blackList peers)) = fst ` set peers"
  by (simp add: builtLabels_def labelPtrs_def keys_fold_insert qmap_keys_def)

lemma sortedPtrs_props:
  assumes "qSort_contract srt"
  shows "mset (sortedPtrs toLower srt m) = mset (labelPtrs m)"
    and "sorted_wrt (\<lambda>a b. toLower (case map_of m a of Some l \<Rightarrow> labelText l | None \<Rightarrow> [])
               \<le> toLower (case map_of m b of Some l \<Rightarrow> labelText l | None \<Rightarrow> []))
           (sortedPtrs toLower srt m)"
proof -
  let ?f = "\<lambda>a. toLower (case map_of m a of Some l \<Rightarrow> labelText l | None \<Rightarrow> [])"
  have swo: "strict_weak_order (\<lambda>a b. ?f a < ?f b)"
    by (rule strict_weak_order_key)
  with assms show "mset (sortedPtrs toLower srt m) = mset (labelPtrs m)"
    unfolding qSort_contract_def sortedPtrs_def by blast
  from assms swo have "sorted_wrt (\<lambda>a b. \<not> ?f b < ?f a) (sortedPtrs toLower srt m)"
    unfolding qSort_contract_def sortedPtrs_def by blast
  then show "sorted_wrt (\<lambda>a b. ?f a \<le> ?f b) (sortedPtrs toLower srt m)"
    by (simp add: not_less)
qed

lemma updateUserNames_empty:
  "updateUserNames toLower srt toString selfPk blackList [] s0 =
     Inr (s0\<lparr>namesListLayout := [], peerLabels := []\<rparr>)"
  by (simp add: updateUserNames_def)

lemma updateUserNames_nonempty:
  fixes toString :: "'pk::linorder \<Rightarrow> QString" and selfPk :: 'pk and blackList :: "QString list"
    and peers :: "('pk, QString) QMap" and toLower :: "QString \<Rightarrow> QString"
    and srt :: "('pk \<Rightarrow> 'pk \<Rightarrow> bool) \<Rightarrow> 'pk list \<Rightarrow> 'pk list"
  assumes ne: "peers \<noteq> []" and c: "qSort_contract srt"
  defines "m \<equiv> builtLabels toString selfPk blackList peers"
  defines "nick \<equiv> sortedPtrs toLower srt m"
  shows "\<exists>s' l. updateUserNames toLower srt toString selfPk blackList peers s0 = Inr s' \<and>
           nick \<noteq> [] \<and> map_of m (last nick) = Some l \<and>
           namesListLayout s' = nick \<and>
           peerLabels s' = qmap_insert (last nick) (l\<lparr>labelText := chop 2 (labelText l)\<rparr>) m \<and>
           peerAudioTimers s' = peerAudioTimers s0"
proof -
  let ?s1 = "s0\<lparr>namesListLayout := [], peerLabels := []\<rparr>"
  let ?s2 = "fold (addNameLabel toString selfPk blackList peers) (qmap_keys peers) ?s1"
  let ?s3 = "case netcam ?s2 of Some view \<Rightarrow> ?s2\<lparr>netcam := Some (clearPeers view)\<rparr> | None \<Rightarrow> ?s2"
  have s2: "peerLabels ?s2 = m" "namesListLayout ?s2 = []" "peerAudioTimers ?s2 = peerAudioTimers s0"
    using fold_addNameLabel [of toString selfPk blackList peers "qmap_keys peers" ?s1]
    by (simp_all add: m_def builtLabels_def)
  then have s3: "peerLabels ?s3 = m" "namesListLayout ?s3 = []" "peerAudioTimers ?s3 = peerAudioTimers s0"
    by (simp_all split: option.split)
  have srt: "srt (\<lambda>a b. toLower (labelTextAt ?s3 a) < toLower (labelTextAt ?s3 b)) (labelPtrs (peerLabels ?s3)) = nick"
    by (simp only: labelTextAt_eq s3 nick_def sortedPtrs_def)
  have ms: "mset nick = mset (labelPtrs m)"
    unfolding nick_def using c by (rule sortedPtrs_props)
  from ne have "labelPtrs m \<noteq> []"
    using builtLabels_keys [of toString selfPk blackList peers] by (auto simp: m_def)
  with ms have nn: "nick \<noteq> []"
    by auto
  then have "last nick \<in> set nick"
    by simp
  also have "set nick = fst ` set peers"
    using ms builtLabels_keys [of toString selfPk blackList peers] mset_eq_setD [OF ms]
    by (simp add: m_def)
  finally obtain l where l: "map_of m (last nick) = Some l"
    by (simp add: m_def builtLabels_lookup)
  have "updateUserNames toLower srt toString selfPk blackList peers s0 =
      Inr (?s3\<lparr>peerLabels := qmap_insert (last nick) (l\<lparr>labelText := chop 2 (labelText l)\<rparr>) m,
               namesListLayout := nick\<rparr>)"
    unfolding updateUserNames_def Let_def using ne nn l srt s3(1) by simp
  with nn l s3 show ?thesis
    by simp
qed

lemma updateUserNames_outcome:
  "map_sum id (\<lambda>s. (namesListLayout s, peerLabels s))
     (updateUserNames toLower srt toString selfPk blackList peers s0) =
   layoutOutcome toLower srt toString selfPk blackList peers"
proof (cases "peers = []")
  case True
  then show ?thesis
    by (simp add: updateUserNames_empty layoutOutcome_def)
next
  case False
  let ?m = "builtLabels toString selfPk blackList peers"
  let ?nick = "sortedPtrs toLower srt ?m"
  let ?s1 = "s0\<lparr>namesListLayout := [], peerLabels := []\<rparr>"
  let ?s2 = "fold (addNameLabel toString selfPk blackList peers) (qmap_keys peers) ?s1"
  let ?s3 = "case netcam ?s2 of Some view \<Rightarrow> ?s2\<lparr>netcam := Some (clearPeers view)\<rparr> | None \<Rightarrow> ?s2"
  have "peerLabels ?s2 = ?m"
    using fold_addNameLabel [of toString selfPk blackList peers "qmap_keys peers" ?s1]
    by (simp add: builtLabels_def)
  then have s3: "peerLabels ?s3 = ?m"
    by (simp split: option.split)
  have srt: "srt (\<lambda>a b. toLower (labelTextAt ?s3 a) < toLower (labelTextAt ?s3 b)) (labelPtrs (peerLabels ?s3)) = ?nick"
    by (simp only: labelTextAt_eq s3 sortedPtrs_def)
  show ?thesis
  proof (cases "?nick = []")
    case True
    have "updateUserNames toLower srt toString selfPk blackList peers s0 = Inl EmptyListAccess"
      unfolding updateUserNames_def Let_def using False True srt s3 by simp
    with False True show ?thesis
      by (simp add: layoutOutcome_def Let_def)
  next
    case nn: False
    show ?thesis
    proof (cases "map_of ?m (last ?nick)")
      case None
      have "updateUserNames toLower srt toString selfPk blackList peers s0 = Inl NullPointerDereference"
        unfolding updateUserNames_def Let_def using False nn None srt s3 by simp
      with False nn None show ?thesis
        by (simp add: layoutOutcome_def Let_def)
    next
      case (Some l)
      have "updateUserNames toLower srt toString selfPk blackList peers s0 =
          Inr (?s3\<lparr>peerLabels := qmap_insert (last ?nick) (l\<lparr>labelText := chop 2 (labelText l)\<rparr>) ?m,
               namesListLayout := ?nick\<rparr>)"
        unfolding updateUserNames_def Let_def using False nn Some srt s3 by simp
      with False nn Some show ?thesis
        by (simp add: layoutOutcome_def Let_def)
    qed
  qed
qed

lemma outcome_of_result:
  assumes "updateUserNames toLower srt toString selfPk blackList peers s0 = Inr s'"
  shows "layoutOutcome toLower srt toString selfPk blackList peers =
           Inr (namesListLayout s', peerLabels s')"
  using updateUserNames_outcome [of toLower srt toString selfPk blackList peers s0] assms
  by simp

lemma peerLabels_lookup:
  assumes r: "updateUserNames toLower srt toString selfPk blackList peers s0 = Inr s'"
    and k: "k \<in> fst ` set peers"
  shows "\<exists>t. map_of (peerLabels s') k = Some ((nameLabel toString selfPk blackList peers k)\<lparr>labelText := t\<rparr>)"
proof -
  let ?m = "builtLabels toString selfPk blackList peers"
  let ?nick = "sortedPtrs toLower srt ?m"
  from k have ne: "peers \<noteq> []" by auto
  from outcome_of_result [OF r] ne
  obtain l where l: "map_of ?m (last ?nick) = Some l"
    and p: "peerLabels s' = qmap_insert (last ?nick) (l\<lparr>labelText := chop 2 (labelText l)\<rparr>) ?m"
    by (auto simp: layoutOutcome_def Let_def split: if_splits option.splits)
  from k have mk: "map_of ?m k = Some (nameLabel toString selfPk blackList peers k)"
    by (simp add: builtLabels_lookup)
  show ?thesis
  proof (cases "k = last ?nick")
    case True
    with l mk have "l = nameLabel toString selfPk blackList peers k" by simp
    with True p show ?thesis
      by (auto simp: map_of_qmap_insert)
  next
    case False
    with p mk have "map_of (peerLabels s') k = Some (nameLabel toString selfPk blackList peers k)"
      by (simp add: map_of_qmap_insert)
    moreover have "nameLabel toString selfPk blackList peers k =
        (nameLabel toString selfPk blackList peers k)\<lparr>labelText := labelText (nameLabel toString selfPk blackList peers k)\<rparr>"
      by simp
    ultimately show ?thesis
      by metis
  qed
qed

lemma layout_mset:
  assumes c: "qSort_contract srt"
    and r: "updateUserNames toLower srt toString selfPk blackList peers s0 = Inr s'"
  shows "mset (namesListLayout s') = mset (labelPtrs (builtLabels toString selfPk blackList peers))"
proof (cases "peers = []")
  case True
  with r show ?thesis
    by (auto simp: updateUserNames_empty builtLabels_def labelPtrs_def qmap_keys_def)
next
  case False
  with outcome_of_result [OF r]
  have "namesListLayout s' = sortedPtrs toLower srt (builtLabels toString selfPk blackList peers)"
    by (auto simp: layoutOutcome_def Let_def split: if_splits option.splits)
  with sortedPtrs_props(1) [OF c] show ?thesis
    by simp
qed

lemma layout_set:
  assumes c: "qSort_contract srt"
    and r: "updateUserNames toLower srt toString selfPk blackList peers s0 = Inr s'"
  shows "set (namesListLayout s') = fst ` set peers"
  using mset_eq_setD [OF layout_mset [OF c r]] builtLabels_keys [of toString selfPk blackList peers]
  by simp

lemma map_filter_total:
  "\<forall>x \<in> set xs. f x \<noteq> None \<Longrightarrow> List.map_filter f xs = map (\<lambda>x. the (f x)) xs"
  by (induction xs) (auto simp: List.map_filter_simps)

lemma layoutLabels_eq:
  assumes c: "qSort_contract srt"
    and r: "updateUserNames toLower srt toString selfPk blackList peers s0 = Inr s'"
  shows "layoutLabels s' = map (\<lambda>k. the (map_of (peerLabels s') k)) (namesListLayout s')"
proof -
  have "\<forall>k \<in> set (namesListLayout s'). map_of (peerLabels s') k \<noteq> None"
    using peerLabels_lookup [OF r] layout_set [OF c r] by fastforce
  then show ?thesis
    unfolding layoutLabels_def by (rule map_filter_total)
qed

lemma layoutLabels_field:
  assumes c: "qSort_contract srt"
    and r: "updateUserNames toLower srt toString selfPk blackList peers s0 = Inr s'"
    and g: "\<And>l t. g (l\<lparr>labelText := t\<rparr>) = g l"
  shows "map g (layoutLabels s') =
         map (\<lambda>k. g (nameLabel toString selfPk blackList peers k)) (namesListLayout s')"
proof -
  have "g (the (map_of (peerLabels s') k)) = g (nameLabel toString selfPk blackList peers k)"
    if "k \<in> set (namesListLayout s')" for k
  proof -
    from that have "k \<in> fst ` set peers"
      using layout_set [OF c r] by simp
    from peerLabels_lookup [OF r this] g show ?thesis
      by auto
  qed
  then show ?thesis
    by (simp add: layoutLabels_eq [OF c r])
qed

lemma layout_sorted:
  assumes c: "qSort_contract srt"
    and r: "updateUserNames toLower srt toString selfPk blackList peers s0 = Inr s'"
  shows "sorted_wrt (\<lambda>a b. sortKey toLower (qmap_value peers a []) \<le> sortKey toLower (qmap_value peers b []))
           (namesListLayout s')"
proof (cases "peers = []")
  case True
  with r show ?thesis
    by (auto simp: updateUserNames_empty)
next
  case False
  let ?m = "builtLabels toString selfPk blackList peers"
  from False outcome_of_result [OF r]
  have n: "namesListLayout s' = sortedPtrs toLower srt ?m"
    by (auto simp: layoutOutcome_def Let_def split: if_splits option.splits)
  have key: "toLower (case map_of ?m a of Some l \<Rightarrow> labelText l | None \<Rightarrow> []) =
      sortKey toLower (qmap_value peers a [])" if "a \<in> set (namesListLayout s')" for a
  proof -
    from that have "a \<in> fst ` set peers"
      using layout_set [OF c r] by simp
    then show ?thesis
      by (simp add: builtLabels_lookup nameLabel_def sortKey_def)
  qed
  from sortedPtrs_props(2) [OF c, of toLower ?m]
  show ?thesis
    unfolding n [symmetric]
    by (rule sorted_wrt_mono_rel [rotated]) (simp add: key)
qed

subsection \<open>The quicksort meets the contract of qSort\<close>

lemma perm_in_refl: "perm_in xs xs a b"
  by (simp add: perm_in_def)

lemma perm_in_trans: "perm_in xs ys a b \<Longrightarrow> perm_in ys zs a b \<Longrightarrow> perm_in xs zs a b"
  by (simp add: perm_in_def)

lemma perm_in_mono:
  assumes p: "perm_in xs ys a' b'" and a: "a \<le> a'" and b: "b' \<le> b"
  shows "perm_in xs ys a b"
proof -
  from p have len: "length ys = length xs" and ms: "mset ys = mset xs"
    and out: "\<And>i. i < a' \<or> b' \<le> i \<Longrightarrow> ys ! i = xs ! i"
    and img: "(\<lambda>i. ys ! i) ` {a'..<b'} = (\<lambda>i. xs ! i) ` {a'..<b'}"
    by (auto simp: perm_in_def)
  have sub: "{a'..<b'} \<subseteq> {a..<b}"
    using a b by auto
  have "(\<lambda>i. ys ! i) ` {a..<b} = (\<lambda>i. xs ! i) ` {a..<b}"
  proof (rule set_eqI, rule iffI)
    fix v assume "v \<in> (\<lambda>i. ys ! i) ` {a..<b}"
    then obtain i where i: "i \<in> {a..<b}" "v = ys ! i" by auto
    show "v \<in> (\<lambda>i. xs ! i) ` {a..<b}"
    proof (cases "i \<in> {a'..<b'}")
      case True
      with i img have "v \<in> (\<lambda>i. xs ! i) ` {a'..<b'}" by auto
      with sub show ?thesis by auto
    next
      case False
      then have "ys ! i = xs ! i" by (intro out) auto
      with i show ?thesis by auto
    qed
  next
    fix v assume "v \<in> (\<lambda>i. xs ! i) ` {a..<b}"
    then obtain i where i: "i \<in> {a..<b}" "v = xs ! i" by auto
    show "v \<in> (\<lambda>i. ys ! i) ` {a..<b}"
    proof (cases "i \<in> {a'..<b'}")
      case True
      with i img have "v \<in> (\<lambda>i. ys ! i) ` {a'..<b'}" by auto
      with sub show ?thesis by auto
    next
      case False
      then have "ys ! i = xs ! i" by (intro out) auto
      with i show ?thesis by force
    qed
  qed
  moreover have "ys ! i = xs ! i" if "i < a \<or> b \<le> i" for i
    using that a b by (intro out) auto
  ultimately show ?thesis
    using len ms by (simp add: perm_in_def)
qed

lemma qSwap_nth:
  "i < length xs \<Longrightarrow> j < length xs \<Longrightarrow>
   qSwap i j xs ! n = xs ! (if n = j then i else if n = i then j else n)"
  by (auto simp: qSwap_def nth_list_update)

lemma length_qSwap: "length (qSwap i j xs) = length xs"
  by (simp add: qSwap_def)

lemma perm_in_qSwap:
  assumes "a \<le> i" "i < b" "a \<le> j" "j < b" "b \<le> length xs"
  shows "perm_in xs (qSwap i j xs) a b"
proof -
  from assms have len: "i < length xs" "j < length xs" by auto
  have "(\<lambda>n. qSwap i j xs ! n) ` {a..<b} = (\<lambda>n. xs ! n) ` {a..<b}"
  proof (rule set_eqI, rule iffI)
    fix v assume "v \<in> (\<lambda>n. qSwap i j xs ! n) ` {a..<b}"
    then obtain n where n: "n \<in> {a..<b}" "v = qSwap i j xs ! n" by auto
    define m where "m = (if n = j then i else if n = i then j else n)"
    from n assms have "m \<in> {a..<b}" by (auto simp: m_def)
    moreover from n have "v = xs ! m" by (simp add: qSwap_nth [OF len] m_def)
    ultimately show "v \<in> (\<lambda>n. xs ! n) ` {a..<b}"
      by (rule rev_image_eqI)
  next
    fix v assume "v \<in> (\<lambda>n. xs ! n) ` {a..<b}"
    then obtain n where n: "n \<in> {a..<b}" "v = xs ! n" by auto
    define m where "m = (if n = j then i else if n = i then j else n)"
    from n assms have "m \<in> {a..<b}" by (auto simp: m_def)
    moreover from n have "v = qSwap i j xs ! m" by (auto simp: qSwap_nth [OF len] m_def)
    ultimately show "v \<in> (\<lambda>n. qSwap i j xs ! n) ` {a..<b}"
      by (rule rev_image_eqI)
  qed
  moreover have "mset (qSwap i j xs) = mset xs"
    using len by (simp add: qSwap_def mset_swap)
  moreover have "qSwap i j xs ! n = xs ! n" if "n < a \<or> b \<le> n" for n
    using that assms by (auto simp: qSwap_nth [OF len])
  ultimately show ?thesis
    by (simp add: perm_in_def length_qSwap)
qed

lemma scanLow_props:
  "(\<forall>i. low \<le> i \<and> i < scanLow lt xs e low high \<longrightarrow> lt (xs ! i) (xs ! e)) \<and>
   \<not> (scanLow lt xs e low high < high \<and> lt (xs ! scanLow lt xs e low high) (xs ! e))"
proof (induction lt xs e low high rule: scanLow.induct)
  case (1 lt xs e low high)
  show ?case
  proof (cases "low < high \<and> lt (xs ! low) (xs ! e)")
    case True
    then have eq: "scanLow lt xs e low high = scanLow lt xs e (low + 1) high"
      by (subst scanLow.simps) simp
    from "1.IH" True
    have ih: "\<forall>i. low + 1 \<le> i \<and> i < scanLow lt xs e (low + 1) high \<longrightarrow> lt (xs ! i) (xs ! e)"
      and st: "\<not> (scanLow lt xs e (low + 1) high < high \<and> lt (xs ! scanLow lt xs e (low + 1) high) (xs ! e))"
      by auto
    have "lt (xs ! i) (xs ! e)" if "low \<le> i" "i < scanLow lt xs e (low + 1) high" for i
    proof (cases "i = low")
      case True
      with \<open>low < high \<and> lt (xs ! low) (xs ! e)\<close> show ?thesis by simp
    next
      case False
      with that ih show ?thesis by simp
    qed
    with st show ?thesis
      unfolding eq by blast
  next
    case False
    then have "scanLow lt xs e low high = low"
      by (subst scanLow.simps) auto
    with False show ?thesis by auto
  qed
qed

lemma scanHigh_props:
  "(\<forall>i. scanHigh lt xs e low high < i \<and> i \<le> high \<longrightarrow> lt (xs ! e) (xs ! i)) \<and>
   \<not> (scanHigh lt xs e low high > low \<and> lt (xs ! e) (xs ! scanHigh lt xs e low high))"
proof (induction lt xs e low high rule: scanHigh.induct)
  case (1 lt xs e low high)
  show ?case
  proof (cases "high > low \<and> lt (xs ! e) (xs ! high)")
    case True
    then have eq: "scanHigh lt xs e low high = scanHigh lt xs e low (high - 1)"
      by (subst scanHigh.simps) simp
    from "1.IH" True
    have ih: "\<forall>i. scanHigh lt xs e low (high - 1) < i \<and> i \<le> high - 1 \<longrightarrow> lt (xs ! e) (xs ! i)"
      and st: "\<not> (scanHigh lt xs e low (high - 1) > low \<and> lt (xs ! e) (xs ! scanHigh lt xs e low (high - 1)))"
      by auto
    have "lt (xs ! e) (xs ! i)" if "scanHigh lt xs e low (high - 1) < i" "i \<le> high" for i
    proof (cases "i = high")
      case True
      with \<open>high > low \<and> lt (xs ! e) (xs ! high)\<close> show ?thesis by simp
    next
      case False
      with that have "i \<le> high - 1" by simp
      with that ih show ?thesis by simp
    qed
    with st show ?thesis
      unfolding eq by blast
  next
    case False
    then have "scanHigh lt xs e low high = high"
      by (subst scanHigh.simps) auto
    with False show ?thesis by auto
  qed
qed

lemma partitionLoop_correct:
  assumes asym: "\<forall>x y. lt x y \<longrightarrow> \<not> lt y x"
    and inv: "partition_inv lt a e (xs, low, high)"
  shows "partition_inv lt a e (partitionLoop lt e (xs, low, high)) \<and>
         perm_in xs (fst (partitionLoop lt e (xs, low, high))) a e \<and>
         snd (snd (partitionLoop lt e (xs, low, high))) \<le> fst (snd (partitionLoop lt e (xs, low, high)))"
  using inv asym
proof (induction lt e "(xs, low, high)" arbitrary: xs low high rule: partitionLoop.induct)
  case (1 lt e xs low high)
  let ?l = "scanLow lt xs e low high"
  let ?h = "scanHigh lt xs e ?l high"
  note inv = "1.prems"(1)
  from "1.prems"(2) have asym: "\<And>x y. lt x y \<Longrightarrow> \<not> lt y x"
    by blast
  show ?case
  proof (cases "low < high")
    case False
    then have eq: "partitionLoop lt e (xs, low, high) = (xs, low, high)"
      by (subst partitionLoop.simps) simp
    from False inv show ?thesis
      unfolding eq by (auto simp: partition_inv_def perm_in_refl)
  next
    case lh: True
    have l: "low \<le> ?l" "?l \<le> high"
      using scanLow_bounds [of low lt xs e high] lh by simp_all
    have h: "?h \<le> high" "?l \<le> ?h"
      using scanHigh_bounds [of lt xs e ?l high] l by simp_all
    have lowp: "\<forall>i. low \<le> i \<and> i < ?l \<longrightarrow> lt (xs ! i) (xs ! e)"
      and lstop: "\<not> (?l < high \<and> lt (xs ! ?l) (xs ! e))"
      using scanLow_props [of low lt xs e high] by blast+
    have highp: "\<forall>i. ?h < i \<and> i \<le> high \<longrightarrow> lt (xs ! e) (xs ! i)"
      and hstop: "\<not> (?h > ?l \<and> lt (xs ! e) (xs ! ?h))"
      using scanHigh_props [of lt xs e ?l high] by blast+
    have L: "\<not> lt (xs ! e) (xs ! i)" if "a \<le> i" "i < ?l" for i
    proof (cases "i < low")
      case True
      with that inv show ?thesis by (simp add: partition_inv_def)
    next
      case False
      with that lowp have "lt (xs ! i) (xs ! e)" by simp
      then show ?thesis by (rule asym)
    qed
    have U: "\<not> lt (xs ! i) (xs ! e)" if "?h < i" "i < e" for i
    proof (cases "high < i")
      case True
      with that inv show ?thesis by (simp add: partition_inv_def)
    next
      case False
      with that highp have "lt (xs ! e) (xs ! i)" by simp
      then show ?thesis by (rule asym)
    qed
    show ?thesis
    proof (cases "?l < ?h")
      case False
      with lh have eq: "partitionLoop lt e (xs, low, high) = (xs, ?l, ?h)"
        by (subst partitionLoop.simps) (simp add: Let_def)
      from False h have "?l = ?h" by simp
      with inv l h L U show ?thesis
        unfolding eq by (auto simp: partition_inv_def perm_in_refl)
    next
      case True
      with lh have eq: "partitionLoop lt e (xs, low, high) =
          partitionLoop lt e (qSwap ?l ?h xs, ?l + 1, ?h - 1)"
        by (subst partitionLoop.simps) (simp add: Let_def)
      let ?ys = "qSwap ?l ?h xs"
      from inv have bnd: "a \<le> low" "high < e" "e < length xs"
        by (auto simp: partition_inv_def)
      with l h True have idx: "?l < length xs" "?h < length xs" "?l \<noteq> e" "?h \<noteq> e"
        by auto
      have ye: "?ys ! e = xs ! e"
        using idx by (simp add: qSwap_nth)
      from True hstop have hle: "\<not> lt (xs ! e) (xs ! ?h)"
        by simp
      from True h lstop have lge: "\<not> lt (xs ! ?l) (xs ! e)"
        by auto
      have L': "\<not> lt (?ys ! e) (?ys ! i)" if "a \<le> i" "i < ?l + 1" for i
        using that L [of i] hle True idx by (auto simp: ye qSwap_nth)
      have U': "\<not> lt (?ys ! i) (?ys ! e)" if "?h - 1 < i" "i < e" for i
        using that U [of i] lge True idx by (auto simp: ye qSwap_nth)
      have inv': "partition_inv lt a e (?ys, ?l + 1, ?h - 1)"
        using bnd l h True L' U' by (auto simp: partition_inv_def length_qSwap)
      from "1.hyps" [OF lh refl refl True inv' "1.prems"(2)]
      have ih: "partition_inv lt a e (partitionLoop lt e (?ys, ?l + 1, ?h - 1))"
        "perm_in ?ys (fst (partitionLoop lt e (?ys, ?l + 1, ?h - 1))) a e"
        "snd (snd (partitionLoop lt e (?ys, ?l + 1, ?h - 1))) \<le> fst (snd (partitionLoop lt e (?ys, ?l + 1, ?h - 1)))"
        by auto
      have "perm_in xs ?ys a e"
        using bnd l h True by (intro perm_in_qSwap) auto
      with ih show ?thesis
        unfolding eq by (auto intro: perm_in_trans)
    qed
  qed
qed

lemma swo_asym: "strict_weak_order lt \<Longrightarrow> lt x y \<Longrightarrow> \<not> lt y x"
  unfolding strict_weak_order_def by blast

lemma swo_irrefl: "strict_weak_order lt \<Longrightarrow> \<not> lt x x"
  unfolding strict_weak_order_def by blast

lemma swo_ntrans: "strict_weak_order lt \<Longrightarrow> \<not> lt x y \<Longrightarrow> \<not> lt y z \<Longrightarrow> \<not> lt x z"
  unfolding strict_weak_order_def by blast

lemma perm_in_all:
  assumes p: "perm_in xs ys a b" and q: "\<And>i. a \<le> i \<Longrightarrow> i < b \<Longrightarrow> Q (xs ! i)"
    and i: "a \<le> i" "i < b"
  shows "Q (ys ! i)"
proof -
  from i have "ys ! i \<in> (\<lambda>i. ys ! i) ` {a..<b}" by simp
  with p have "ys ! i \<in> (\<lambda>i. xs ! i) ` {a..<b}" by (simp add: perm_in_def)
  then obtain j where "a \<le> j" "j < b" "ys ! i = xs ! j" by auto
  with q [of j] show ?thesis by simp
qed

lemma perm_in_outside: "perm_in xs ys a b \<Longrightarrow> i < a \<or> b \<le> i \<Longrightarrow> ys ! i = xs ! i"
  by (auto simp: perm_in_def)

lemma perm_in_length: "perm_in xs ys a b \<Longrightarrow> length ys = length xs"
  by (simp add: perm_in_def)

lemma combine_sorted:
  assumes swo: "strict_weak_order lt"
    and piv: "pivoted lt xs c a b"
    and p1: "perm_in xs ys a c" and s1: "sorted_in lt ys a c"
    and p2: "perm_in ys zs (c + 1) b" and s2: "sorted_in lt zs (c + 1) b"
  shows "sorted_in lt zs a b \<and> perm_in xs zs a b"
proof -
  from piv have ac: "a \<le> c" "c < b"
    and lo: "\<And>i. a \<le> i \<Longrightarrow> i < c \<Longrightarrow> \<not> lt (xs ! c) (xs ! i)"
    and hi: "\<And>i. c < i \<Longrightarrow> i < b \<Longrightarrow> \<not> lt (xs ! i) (xs ! c)"
    by (auto simp: pivoted_def)
  have yc: "ys ! c = xs ! c"
    using p1 by (rule perm_in_outside) simp
  have zc: "zs ! c = xs ! c"
    using perm_in_outside [OF p2, of c] yc by simp
  have zlow: "zs ! i = ys ! i" if "i < c" for i
    using p2 that by (intro perm_in_outside) auto
  have yhigh: "ys ! i = xs ! i" if "c \<le> i" for i
    using p1 that by (intro perm_in_outside) auto
  have lo': "\<not> lt (xs ! c) (zs ! i)" if "a \<le> i" "i < c" for i
    unfolding zlow [OF that(2)]
    using p1 _ that by (rule perm_in_all) (rule lo)
  have hi1: "\<not> lt (ys ! i) (xs ! c)" if "c + 1 \<le> i" "i < b" for i
    using that hi [of i] yhigh [of i] by simp
  have hi': "\<not> lt (zs ! i) (xs ! c)" if "c < i" "i < b" for i
    using p2 hi1 by (rule perm_in_all) (use that in auto)
  have "\<not> lt (zs ! j) (zs ! i)" if ij: "a \<le> i" "i < j" "j < b" for i j
  proof -
    consider "j < c" | "j = c" | "i < c" "c < j" | "i = c" | "c < i"
      using ij by linarith
    then show ?thesis
    proof cases
      case 1
      with ij s1 have "\<not> lt (ys ! j) (ys ! i)"
        by (simp add: sorted_in_def)
      with 1 ij show ?thesis
        by (simp add: zlow)
    next
      case 2
      with ij lo' [of i] show ?thesis
        by (simp add: zc)
    next
      case 3
      with ij have "\<not> lt (zs ! j) (xs ! c)" "\<not> lt (xs ! c) (zs ! i)"
        by (simp_all add: hi' lo')
      then show ?thesis
        by (rule swo_ntrans [OF swo])
    next
      case 4
      with ij hi' [of j] show ?thesis
        by (simp add: zc)
    next
      case 5
      with ij s2 show ?thesis
        by (simp add: sorted_in_def)
    qed
  qed
  then have "sorted_in lt zs a b"
    by (simp add: sorted_in_def)
  moreover have "perm_in xs ys a b"
    using p1 ac by (intro perm_in_mono [OF p1]) auto
  moreover have "perm_in ys zs a b"
    using ac by (intro perm_in_mono [OF p2]) auto
  ultimately show ?thesis
    by (auto intro: perm_in_trans)
qed

lemma partition_phase:
  assumes swo: "strict_weak_order lt"
    and span: "4 \<le> fin - start" and len: "fin \<le> length xs"
    and pl: "partitionLoop lt (fin - 1) (xs, start, fin - 1 - 1) = (ys, l, h)"
    and c: "c = (if lt (ys ! l) (ys ! (fin - 1)) then l + 1 else l)"
  shows "pivoted lt (qSwap (fin - 1) c ys) c start fin \<and> perm_in xs (qSwap (fin - 1) c ys) start fin"
proof -
  let ?e = "fin - 1"
  from span len have e: "start < ?e" "?e < length xs" "?e < fin" "?e - 1 < ?e" "start \<le> ?e - 1 + 1"
    by auto
  then have "partition_inv lt start ?e (xs, start, ?e - 1)"
    by (auto simp: partition_inv_def)
  with partitionLoop_correct [of lt start ?e xs start "?e - 1"] swo pl
  have inv: "partition_inv lt start ?e (ys, l, h)" and p: "perm_in xs ys start ?e" and hl: "h \<le> l"
    by (auto simp: swo_asym)
  from inv have b: "start \<le> l" "h < ?e" "?e < length ys" "l \<le> h + 1"
    and L: "\<And>i. start \<le> i \<Longrightarrow> i < l \<Longrightarrow> \<not> lt (ys ! ?e) (ys ! i)"
    and U: "\<And>i. h < i \<Longrightarrow> i < ?e \<Longrightarrow> \<not> lt (ys ! i) (ys ! ?e)"
    by (auto simp: partition_inv_def)
  have "l \<noteq> ?e" if "lt (ys ! l) (ys ! ?e)"
    using that swo_irrefl [OF swo, of "ys ! ?e"] by auto
  then have cb: "start \<le> c" "c \<le> ?e"
    using b hl c by (auto split: if_splits)
  have cl: "c < length ys"
    using cb b by simp
  have L': "\<not> lt (ys ! ?e) (ys ! i)" if "start \<le> i" "i < c" for i
  proof (cases "i < l")
    case True
    with that L [of i] show ?thesis by simp
  next
    case False
    with that c have "i = l" "lt (ys ! l) (ys ! ?e)"
      by (auto split: if_splits)
    then show ?thesis
      by (simp add: swo_asym [OF swo])
  qed
  have U': "\<not> lt (ys ! i) (ys ! ?e)" if "c \<le> i" "i < ?e" for i
  proof (cases "h < i")
    case True
    with that U [of i] show ?thesis by simp
  next
    case False
    with that cb b hl c have "i = l" "\<not> lt (ys ! l) (ys ! ?e)"
      by (auto split: if_splits)
    then show ?thesis by simp
  qed
  let ?zs = "qSwap ?e c ys"
  have zc: "?zs ! c = ys ! ?e"
    using b cl by (simp add: qSwap_nth)
  have lo: "\<not> lt (?zs ! c) (?zs ! i)" if "start \<le> i" "i < c" for i
    using that cb L' [of i] b cl by (simp add: zc qSwap_nth)
  have hi: "\<not> lt (?zs ! i) (?zs ! c)" if "c < i" "i < fin" for i
  proof (cases "i = ?e")
    case True
    with that U' [of c] b cl show ?thesis
      by (simp add: zc qSwap_nth)
  next
    case False
    with that U' [of i] b cl show ?thesis
      by (simp add: zc qSwap_nth)
  qed
  have "pivoted lt ?zs c start fin"
    using cb e lo hi by (auto simp: pivoted_def)
  moreover have "perm_in xs ys start fin"
    by (rule perm_in_mono [OF p]) simp_all
  moreover have "perm_in ys ?zs start fin"
    using cb e b len perm_in_length [OF p] by (intro perm_in_qSwap) auto
  ultimately show ?thesis
    by (auto intro: perm_in_trans)
qed

lemma sorted_in_two:
  assumes swo: "strict_weak_order lt" and len: "start + 2 \<le> length xs"
  shows "sorted_in lt (if lt (xs ! (start + 1)) (xs ! start) then qSwap (start + 1) start xs else xs)
           start (start + 2)"
proof -
  have "\<not> lt (ys ! j) (ys ! i)"
    if "start \<le> i" "i < j" "j < start + 2"
      and ys: "ys = (if lt (xs ! (start + 1)) (xs ! start) then qSwap (start + 1) start xs else xs)"
    for i j ys
  proof -
    from that have ij: "i = start" "j = start + 1" by auto
    show ?thesis
      using len swo_asym [OF swo, of "xs ! (start + 1)" "xs ! start"]
      by (auto simp: ys ij qSwap_nth)
  qed
  then show ?thesis
    by (simp add: sorted_in_def)
qed

lemma sorted_in_three:
  assumes swo: "strict_weak_order lt" and len: "start + 3 \<le> length xs"
  defines "xs1 \<equiv> (if lt (xs ! (start + 2)) (xs ! start) then qSwap (start + 2) start xs else xs)"
  defines "xs2 \<equiv> (if lt (xs1 ! (start + 1)) (xs1 ! start) then qSwap (start + 1) start xs1 else xs1)"
  defines "xs3 \<equiv> (if lt (xs2 ! (start + 2)) (xs2 ! (start + 1)) then qSwap (start + 2) (start + 1) xs2 else xs2)"
  shows "sorted_in lt xs3 start (start + 3)"
proof -
  have l1: "length xs1 = length xs" by (simp add: xs1_def length_qSwap)
  then have l2: "length xs2 = length xs" by (simp add: xs2_def length_qSwap)
  note asym = swo_asym [OF swo] and ntr = swo_ntrans [OF swo]
  have a1: "\<not> lt (xs1 ! (start + 2)) (xs1 ! start)"
    using len asym [of "xs ! (start + 2)" "xs ! start"] by (auto simp: xs1_def qSwap_nth)
  have a2: "\<not> lt (xs2 ! (start + 1)) (xs2 ! start)" "\<not> lt (xs2 ! (start + 2)) (xs2 ! start)"
    using len l1 a1 asym [of "xs1 ! (start + 1)" "xs1 ! start"]
      ntr [of "xs1 ! (start + 2)" "xs1 ! start" "xs1 ! (start + 1)"]
    by (auto simp: xs2_def qSwap_nth)
  have a3: "\<not> lt (xs3 ! (start + 1)) (xs3 ! start)" "\<not> lt (xs3 ! (start + 2)) (xs3 ! start)"
    "\<not> lt (xs3 ! (start + 2)) (xs3 ! (start + 1))"
    using len l2 a2 asym [of "xs2 ! (start + 2)" "xs2 ! (start + 1)"]
    by (auto simp: xs3_def qSwap_nth)
  have "\<not> lt (xs3 ! j) (xs3 ! i)" if "start \<le> i" "i < j" "j < start + 3" for i j
  proof -
    from that consider "i = start" "j = start + 1" | "i = start" "j = start + 2"
      | "i = start + 1" "j = start + 2"
      by linarith
    then show ?thesis
      using a3 by cases simp_all
  qed
  then show ?thesis
    by (simp add: sorted_in_def)
qed

lemma qSortHelper_correct:
  assumes "strict_weak_order lt" "fin \<le> length xs"
  shows "perm_in xs (qSortHelper lt start fin xs) start fin \<and>
         sorted_in lt (qSortHelper lt start fin xs) start fin"
  using assms
proof (induction lt start fin xs rule: qSortHelper.induct)
  case (1 lt start fin xs)
  note swo = "1.prems"(1) and len = "1.prems"(2)
  define span where "span = fin - start"
  define e where "e = fin - 1"
  define pivot where "pivot = start + span div 2"
  define xs1 where "xs1 = (if lt (xs ! e) (xs ! start) then qSwap e start xs else xs)"
  define xs2 where "xs2 = (if lt (xs1 ! pivot) (xs1 ! start) then qSwap pivot start xs1 else xs1)"
  define xs3 where "xs3 = (if lt (xs2 ! e) (xs2 ! pivot) then qSwap e pivot xs2 else xs2)"
  define xs4 where "xs4 = qSwap pivot e xs3"
  obtain ys l h where pl: "partitionLoop lt e (xs4, start, e - 1) = (ys, l, h)"
    by (cases "partitionLoop lt e (xs4, start, e - 1)") auto
  define c where "c = (if lt (ys ! l) (ys ! e) then l + 1 else l)"
  define zs where "zs = qSwap e c ys"
  note defs = span_def e_def pivot_def xs1_def xs2_def xs3_def xs4_def c_def zs_def
  have eq: "qSortHelper lt start fin xs =
      (if span < 2 then xs else if span = 2 then xs1 else if span = 3 then xs3
       else qSortHelper lt (c + 1) fin (qSortHelper lt start c zs))"
    using qSortHelper.simps [of lt start fin xs, unfolded Let_def, folded span_def, folded e_def,
        folded pivot_def, folded xs1_def, folded xs2_def, folded xs3_def, folded xs4_def,
        unfolded pl prod.case, folded c_def, folded zs_def]
    by simp
  show ?case
  proof (cases "span < 2")
    case True
    then have "sorted_in lt xs start fin"
      by (auto simp: sorted_in_def span_def)
    with True show ?thesis
      by (simp add: eq perm_in_refl)
  next
    case n2: False
    have p1: "perm_in xs xs1 start fin"
      unfolding xs1_def using n2 len
      by (auto simp: perm_in_refl span_def e_def intro!: perm_in_qSwap)
    show ?thesis
    proof (cases "span = 2")
      case True
      then have f: "fin = start + 2" "e = start + 1"
        by (auto simp: span_def e_def)
      have "sorted_in lt xs1 start fin"
        unfolding xs1_def f by (rule sorted_in_two [OF swo]) (use len f in simp)
      with True p1 show ?thesis
        by (simp add: eq)
    next
      case n2': False
      have l1: "length xs1 = length xs"
        using p1 by (rule perm_in_length)
      have piv: "start \<le> pivot" "pivot < fin" "pivot < e" "e < fin"
        using n2 n2' by (auto simp: span_def e_def pivot_def)
      have p2: "perm_in xs1 xs2 start fin"
        unfolding xs2_def using piv len l1
        by (auto simp: perm_in_refl intro!: perm_in_qSwap)
      then have l2: "length xs2 = length xs"
        using l1 by (simp add: perm_in_length)
      have p3: "perm_in xs2 xs3 start fin"
        unfolding xs3_def using piv len l2
        by (auto simp: perm_in_refl intro!: perm_in_qSwap)
      then have l3: "length xs3 = length xs"
        using l2 by (simp add: perm_in_length)
      have p13: "perm_in xs xs3 start fin"
        using p1 p2 p3 by (blast intro: perm_in_trans)
      show ?thesis
      proof (cases "span = 3")
        case True
        then have f: "fin = start + 3" "e = start + 2" "pivot = start + 1"
          by (auto simp: span_def e_def pivot_def)
        have "sorted_in lt xs3 start fin"
          unfolding xs3_def xs2_def xs1_def f by (rule sorted_in_three [OF swo]) (use len f in simp)
        with True n2 n2' p13 show ?thesis
          by (simp add: eq)
      next
        case n3: False
        with n2 n2' have span4: "4 \<le> fin - start"
          by (simp add: span_def)
        have p4: "perm_in xs3 xs4 start fin"
          unfolding xs4_def using piv len l3 by (intro perm_in_qSwap) auto
        then have l4: "length xs4 = length xs"
          using l3 by (simp add: perm_in_length)
        have p14: "perm_in xs xs4 start fin"
          using p13 p4 by (rule perm_in_trans)
        from len l4 have len4: "fin \<le> length xs4"
          by simp
        from partition_phase [OF swo span4 len4 pl [unfolded e_def] c_def [unfolded e_def]]
        have pv: "pivoted lt zs c start fin" and pz: "perm_in xs4 zs start fin"
          by (simp_all add: zs_def e_def)
        from pz l4 have lz: "length zs = length xs"
          by (simp add: perm_in_length)
        from pv have cb: "start \<le> c" "c < fin"
          by (simp_all add: pivoted_def)
        with len lz have lenc: "c \<le> length zs"
          by simp
        note ih1 = "1.IH"(1) [OF span_def n2 e_def refl refl pivot_def xs1_def n2' xs2_def xs3_def n3
            xs4_def refl pl [symmetric] refl c_def zs_def swo lenc]
        then have q1: "perm_in zs (qSortHelper lt start c zs) start c"
          and s1: "sorted_in lt (qSortHelper lt start c zs) start c"
          by simp_all
        from q1 lz len have len2: "fin \<le> length (qSortHelper lt start c zs)"
          by (simp add: perm_in_length)
        note ih2 = "1.IH"(2) [OF span_def n2 e_def refl refl pivot_def xs1_def n2' xs2_def xs3_def n3
            xs4_def refl pl [symmetric] refl c_def zs_def refl swo len2]
        then have q2: "perm_in (qSortHelper lt start c zs)
              (qSortHelper lt (c + 1) fin (qSortHelper lt start c zs)) (c + 1) fin"
          and s2: "sorted_in lt (qSortHelper lt (c + 1) fin (qSortHelper lt start c zs)) (c + 1) fin"
          by simp_all
        from combine_sorted [OF swo pv q1 s1 q2 s2] p14 pz n2 n2' n3 show ?thesis
          by (auto simp: eq intro: perm_in_trans)
      qed
    qed
  qed
qed

lemma qSort_meets_contract: "qSort_contract qSort"
proof -
  have "mset (qSort lt xs) = mset xs \<and> sorted_wrt (\<lambda>a b. \<not> lt b a) (qSort lt xs)"
    if swo: "strict_weak_order lt" for lt :: "'a \<Rightarrow> 'a \<Rightarrow> bool" and xs
  proof (cases "xs = []")
    case True
    then show ?thesis by (simp add: qSort_def)
  next
    case False
    let ?ys = "qSortHelper lt 0 (length xs) xs"
    from qSortHelper_correct [OF swo order_refl, of xs 0]
    have p: "perm_in xs ?ys 0 (length xs)" and s: "sorted_in lt ?ys 0 (length xs)"
      by simp_all
    from p have "length ?ys = length xs" "mset ?ys = mset xs"
      by (simp_all add: perm_in_def)
    with s False show ?thesis
      by (simp add: qSort_def sorted_in_def sorted_wrt_iff_nth_less)
  qed
  then show ?thesis
    by (simp add: qSort_contract_def)
qed

subsection \<open>The sample data\<close>


lemma tied_update:
  "updateUserNames toLower_ascii qSort demoToString 1 [] tiedPeers emptyForm = Inr tiedForm"
  by code_simp

subsection \<open>Audio events and timeouts\<close>













section \<open>The claims\<close>




text \<open>
  C7. For a peer list with one entry per key, \<^verbatim>\<open>updateUserNames\<close> returns and the layout
  holds exactly one label for every key of the list: the layout is a rearrangement of the
  keys, it has as many labels as the list has peers, and the full names on the labels are
  the names of the list. For the empty list the function returns at once, with an empty
  layout.
\<close>

theorem layout_one_entry_per_peer:
  assumes inv: "qmap_inv peers" and c: "qSort_contract srt"
  shows "(\<exists>s'. updateUserNames toLower srt toString selfPk blackList peers s0 = Inr s' \<and>
            length (layoutLabels s') = length peers \<and>
            mset (namesListLayout s') = mset (qmap_keys peers) \<and>
            mset (map toolTip (layoutLabels s')) = mset (map snd peers)) \<and>
         updateUserNames toLower srt toString selfPk blackList [] s0 =
           Inr (s0\<lparr>namesListLayout := [], peerLabels := []\<rparr>) \<and>
         layoutLabels (s0\<lparr>namesListLayout := [], peerLabels := []\<rparr>) = []"
proof -
  obtain s' where r: "updateUserNames toLower srt toString selfPk blackList peers s0 = Inr s'"
  proof (cases "peers = []")
    case True
    with that show ?thesis by (simp add: updateUserNames_empty)
  next
    case False
    from updateUserNames_nonempty [OF False c] that show ?thesis by blast
  qed
  from inv have d: "distinct (qmap_keys peers)"
    by (simp add: qmap_keys_def qmap_inv_distinct)
  have m: "mset (namesListLayout s') = mset (qmap_keys peers)"
    using layout_mset [OF c r] mset_keys_fold_insert [OF d]
    by (simp add: builtLabels_def labelPtrs_def)
  have t: "map toolTip (layoutLabels s') = map (\<lambda>k. qmap_value peers k []) (namesListLayout s')"
    using layoutLabels_field [OF c r, of toolTip] by (simp add: nameLabel_def)
  have len: "length (layoutLabels s') = length peers"
    using arg_cong [OF t, of length] arg_cong [OF m, of size] by (simp add: qmap_keys_def)
  have v: "qmap_value peers (fst p) [] = snd p" if "p \<in> set peers" for p
  proof -
    obtain a b where ab: "p = (a, b)"
      by (cases p)
    with that d have "map_of peers a = Some b"
      by (simp add: qmap_keys_def)
    with ab show ?thesis
      by (simp add: qmap_value_def)
  qed
  have "mset (map toolTip (layoutLabels s')) = image_mset (\<lambda>k. qmap_value peers k []) (mset (namesListLayout s'))"
    by (simp add: t)
  also have "\<dots> = mset (map (\<lambda>p. qmap_value peers (fst p) []) peers)"
    by (simp add: m qmap_keys_def image_mset.compositionality comp_def)
  also have "\<dots> = mset (map snd peers)"
    using v by (simp cong: map_cong)
  finally have "mset (map toolTip (layoutLabels s')) = mset (map snd peers)" .
  with r len m show ?thesis
    by (auto simp: updateUserNames_empty layoutLabels_def List.map_filter_simps)
qed

theorem layout_one_entry_per_peer_witness:
  "(\<exists>s'. updateUserNames toLower_ascii qSort demoToString 1 [QStringLiteral ''P2''] demoPeers emptyForm = Inr s' \<and>
            length (layoutLabels s') = length demoPeers \<and>
            mset (namesListLayout s') = mset (qmap_keys demoPeers) \<and>
            mset (map toolTip (layoutLabels s')) = mset (map snd demoPeers)) \<and>
         updateUserNames toLower_ascii qSort demoToString 1 [QStringLiteral ''P2''] [] emptyForm =
           Inr (emptyForm\<lparr>namesListLayout := [], peerLabels := []\<rparr>) \<and>
         layoutLabels (emptyForm\<lparr>namesListLayout := [], peerLabels := []\<rparr>) = []"
proof -
  have "qmap_inv demoPeers"
    by (simp add: qmap_inv_def demoPeers_def)
  from layout_one_entry_per_peer [OF this qSort_meets_contract] show ?thesis .
qed

text \<open>
  C10. \<^verbatim>\<open>nickLabelList.last()\<close> is never reached with an empty list: for every peer list
  the function does not end in \<open>EmptyListAccess\<close>. For the empty peer list it returns
  before the sort, and for any other it returns normally.
\<close>

theorem last_label_access_nonempty:
  assumes "qSort_contract srt"
  shows "updateUserNames toLower srt toString selfPk blackList peers s0 \<noteq> Inl EmptyListAccess \<and>
         updateUserNames toLower srt toString selfPk blackList [] s0 =
           Inr (s0\<lparr>namesListLayout := [], peerLabels := []\<rparr>) \<and>
         (\<exists>s'. updateUserNames toLower srt toString selfPk blackList peers s0 = Inr s')"
proof (cases "peers = []")
  case True
  then show ?thesis by (simp add: updateUserNames_empty)
next
  case False
  from updateUserNames_nonempty [OF False assms, of toLower toString selfPk blackList s0]
  show ?thesis by (auto simp: updateUserNames_empty)
qed

theorem last_label_access_nonempty_witness:
  "updateUserNames toLower_ascii qSort demoToString 1 [] demoPeers emptyForm \<noteq> Inl EmptyListAccess \<and>
         updateUserNames toLower_ascii qSort demoToString 1 [] [] emptyForm =
           Inr (emptyForm\<lparr>namesListLayout := [], peerLabels := []\<rparr>) \<and>
         (\<exists>s'. updateUserNames toLower_ascii qSort demoToString 1 [] demoPeers emptyForm = Inr s')"
  by (rule last_label_access_nonempty [OF qSort_meets_contract])





text \<open>
  C8. The claim is that peers with equal keys keep the order of the input. \<^verbatim>\<open>qSort\<close> is
  not a stable sort: with four peers whose names differ in case only, the quicksort of Qt
  puts the fourth peer first.
\<close>

theorem tied_names_not_in_input_order:
  "map_sum id namesListLayout
     (updateUserNames toLower_ascii qSort demoToString 0 []
        [(1, QStringLiteral ''Ann''), (2, QStringLiteral ''ann''),
         (3, QStringLiteral ''ANN''), (4, QStringLiteral ''aNN'')] emptyForm) = Inr [4, 3, 1, 2] \<and>
   toLower_ascii (QStringLiteral ''Ann'') = toLower_ascii (QStringLiteral ''aNN'')"
  by code_simp

text \<open>
  C8, as the code has it. For a sort that meets the contract of \<^verbatim>\<open>qSort\<close>, every peer of
  the list is in the layout exactly once, and peers with equal sort keys stand next to each
  other: a label between two labels of equal key has that key too. Their order among
  themselves is left open.
\<close>

theorem tied_names_contiguous:
  assumes c: "qSort_contract srt"
    and r: "updateUserNames toLower srt toString selfPk blackList peers s0 = Inr s'"
    and inv: "qmap_inv peers"
    and ij: "i < j" and jk: "j < k" and k: "k < length (namesListLayout s')"
    and tie: "sortKey toLower (qmap_value peers (namesListLayout s' ! i) []) =
              sortKey toLower (qmap_value peers (namesListLayout s' ! k) [])"
  shows "sortKey toLower (qmap_value peers (namesListLayout s' ! j) []) =
         sortKey toLower (qmap_value peers (namesListLayout s' ! i) []) \<and>
         mset (namesListLayout s') = mset (qmap_keys peers)"
proof -
  let ?key = "\<lambda>p. sortKey toLower (qmap_value peers p [])"
  from layout_sorted [OF c r] ij jk k
  have "?key (namesListLayout s' ! i) \<le> ?key (namesListLayout s' ! j)"
    and "?key (namesListLayout s' ! j) \<le> ?key (namesListLayout s' ! k)"
    by (simp_all add: sorted_wrt_iff_nth_less)
  with tie have "?key (namesListLayout s' ! j) = ?key (namesListLayout s' ! i)"
    by simp
  moreover from inv have "distinct (qmap_keys peers)"
    by (simp add: qmap_keys_def qmap_inv_distinct)
  then have "mset (namesListLayout s') = mset (qmap_keys peers)"
    using layout_mset [OF c r] mset_keys_fold_insert
    by (simp add: builtLabels_def labelPtrs_def)
  ultimately show ?thesis
    by simp
qed

theorem tied_names_contiguous_witness:
  "sortKey toLower_ascii (qmap_value tiedPeers (namesListLayout tiedForm ! 1) []) =
   sortKey toLower_ascii (qmap_value tiedPeers (namesListLayout tiedForm ! 0) []) \<and>
   mset (namesListLayout tiedForm) = mset (qmap_keys tiedPeers)"
proof -
  have inv: "qmap_inv tiedPeers"
    by (simp add: qmap_inv_def tiedPeers_def)
  have k: "2 < length (namesListLayout tiedForm)"
    by (simp add: tiedForm_def)
  have tie: "sortKey toLower_ascii (qmap_value tiedPeers (namesListLayout tiedForm ! 0) []) =
             sortKey toLower_ascii (qmap_value tiedPeers (namesListLayout tiedForm ! 2) [])"
    by code_simp
  have ij: "(0::nat) < 1" and jk: "(1::nat) < 2"
    by simp_all
  from tied_names_contiguous [OF qSort_meets_contract tied_update inv ij jk k tie]
  show ?thesis .
qed



text \<open>
  C3. The claim is that an audio event or a timeout for a peer without a label does
  nothing. In the code both evaluate \<^verbatim>\<open>peerLabels[peerPk]\<close>, which yields a null pointer
  for a missing key, and call a member function through it.
\<close>

theorem unknown_peer_null_dereference:
  assumes "map_of (peerLabels s) k = None"
  shows "peerAudioPlaying now peers k s = Inl NullPointerDereference \<and>
         peerAudioTimeout k s = Inl NullPointerDereference"
  using assms
  by (cases "netcam s") (simp_all add: peerAudioPlaying_def peerAudioTimeout_def)

theorem unknown_peer_null_dereference_witness:
  "peerAudioPlaying 0 demoPeers 7 demoForm = Inl NullPointerDereference \<and>
   peerAudioTimeout 7 demoForm = Inl NullPointerDereference"
proof -
  have "map_of (peerLabels demoForm) 7 = None"
    by (simp add: demoForm_def)
  then show ?thesis
    by (rule unknown_peer_null_dereference)
qed

text \<open>
  C2. The claim is that removing a speaking peer from the peer list cancels its timer.
  \<^verbatim>\<open>updateUserNames\<close> leaves \<^verbatim>\<open>peerAudioTimers\<close> as it is: peer 2 speaks at 0 and
  leaves at 300; its timer times out at 500 and finds no label.
\<close>

theorem removed_peer_timer_still_fires:
  "statusLog 2
     (run toLower_ascii qSort demoToString 1 [QStringLiteral ''P2'']
        [(0, AudioPlaying 2),
         (300, UserListChanged [(1, QStringLiteral ''Me''), (3, QStringLiteral ''Al\<newline>ice'')])]
        700 demoPeers demoForm) =
   [(0, Inr True), (300, Inr True), (500, Inl NullPointerDereference)]"
  by code_simp

end
